theory Spec2Isabelle
  imports Main "HOL-Library.Multiset"
begin

section \<open>Identity and errors\<close>

text \<open>
  The caller of a view. Django's authentication middleware makes \<open>request.user\<close> either
  an \<open>AnonymousUser\<close> or a stored \<open>User\<close>, identified here by its primary key. Under the
  REST framework \<open>request.user\<close> may also be \<open>None\<close>; the API entry points therefore take a
  \<open>request_user option\<close>.
\<close>

datatype request_user = AnonymousUser | User nat

fun is_authenticated :: "request_user \<Rightarrow> bool" where
  "is_authenticated AnonymousUser = False"
| "is_authenticated (User uid) = True"

text \<open>
  \<open>request.user == event.organizer\<close>: model instances are equal when they are rows of the same
  model with the same primary key; an \<open>AnonymousUser\<close> equals no stored user.
\<close>

fun user_eq :: "request_user \<Rightarrow> nat \<Rightarrow> bool" where
  "user_eq AnonymousUser uid = False"
| "user_eq (User u) uid = (u = uid)"

text \<open>\<open>request.user in event.invited_users.all()\<close>: a scan of the rows with \<open>==\<close>.\<close>

fun user_in :: "request_user \<Rightarrow> nat list \<Rightarrow> bool" where
  "user_in v [] = False"
| "user_in v (uid # uids) = (user_eq v uid \<or> user_in v uids)"

text \<open>
  Failures are values. The first group are the rejections the views produce themselves
  (as a 4xx response, or a flash message and a redirect); the second group are exceptions
  that the views do not catch.
\<close>

datatype error =
    NotAuthenticated
  | NotFound
  | Forbidden
  | InvalidStatus
  | InvalidRating
  | ValidationError
  | IntegrityError
  | MultipleObjectsReturned
  | ValueError

section \<open>Text\<close>

text \<open>
  Python text whose characters the code inspects (\<open>strip\<close>, \<open>int\<close>, \<open>len\<close>, \<open>split\<close>) is
  a list of Unicode code points. Text that is only compared with other text (an RSVP
  status, a dictionary key, the name of an action) is a \<open>string\<close>. \<open>py_text\<close> gives the
  code points of an ASCII literal.
\<close>

type_synonym py_str = "nat list"

definition py_text :: "string \<Rightarrow> py_str" where
  "py_text s = map of_char s"

section \<open>models.py\<close>

record event =
  pk :: nat
  title :: py_str
  description :: py_str
  organizer :: nat
  location :: py_str
  start_time :: int
  end_time :: int
  is_public :: bool
  invited_users :: "nat list"
  created_at :: int
  updated_at :: int

definition STATUS_GOING :: string where "STATUS_GOING = ''Going''"
definition STATUS_MAYBE :: string where "STATUS_MAYBE = ''Maybe''"
definition STATUS_NOT_GOING :: string where "STATUS_NOT_GOING = ''Not Going''"

definition STATUS_CHOICES :: "(string \<times> string) list" where
  "STATUS_CHOICES =
     [(STATUS_GOING, ''Going''), (STATUS_MAYBE, ''Maybe''), (STATUS_NOT_GOING, ''Not Going'')]"

record rsvp =
  rsvp_pk :: nat
  rsvp_event :: nat
  rsvp_user :: nat
  rsvp_status :: string
  rsvp_created_at :: int

record review =
  review_pk :: nat
  review_event :: nat
  review_user :: nat
  rating :: int
  comment :: py_str
  review_created_at :: int

text \<open>The tables, each in insertion order, and the stored users (primary key, username).\<close>

record db =
  users :: "(nat \<times> py_str) list"
  events :: "event list"
  rsvps :: "rsvp list"
  reviews :: "review list"

section \<open>permissions.py\<close>

text \<open>
  \<open>IsInvitedOrPublic.has_object_permission\<close> reads its object defensively: \<open>is_public\<close> and
  \<open>organizer\<close> through \<open>getattr\<close> with a default, the invited users inside \<open>try/except\<close>.
  The object is modelled accordingly: each read either yields its value (\<open>Inr\<close>) or raises
  (\<open>Inl\<close>), \<open>AttributeError\<close> standing for an absent attribute. On an event fetched by
  the view set, \<open>is_public\<close> is a column loaded with the row, \<open>organizer\<close> is a foreign key
  fetched by a query when it is read, and \<open>invited_users\<close> is a relation queried when it is
  scanned.
\<close>

datatype py_exception = AttributeError | DatabaseError | KeyError

record perm_object =
  obj_is_public :: "py_exception + bool"
  obj_organizer :: "py_exception + nat"
  obj_invited_users :: "py_exception + nat list"

text \<open>An event whose reads all succeed.\<close>

definition event_obj :: "event \<Rightarrow> perm_object" where
  "event_obj e =
     \<lparr>obj_is_public = Inr (is_public e),
      obj_organizer = Inr (organizer e),
      obj_invited_users = Inr (invited_users e)\<rparr>"

text \<open>
  \<open>getattr(obj, "is_public", False)\<close> and \<open>getattr(obj, "organizer", None)\<close>: the default
  replaces an \<open>AttributeError\<close> only; any other exception of the read leaves the call.
\<close>

definition getattr_is_public :: "perm_object \<Rightarrow> py_exception + bool" where
  "getattr_is_public obj =
     (case obj_is_public obj of
        Inl AttributeError \<Rightarrow> Inr False
      | Inl exn \<Rightarrow> Inl exn
      | Inr b \<Rightarrow> Inr b)"

definition getattr_organizer :: "perm_object \<Rightarrow> py_exception + nat option" where
  "getattr_organizer obj =
     (case obj_organizer obj of
        Inl AttributeError \<Rightarrow> Inr None
      | Inl exn \<Rightarrow> Inl exn
      | Inr uid \<Rightarrow> Inr (Some uid))"

text \<open>\<open>user in obj.invited_users.all()\<close>, which raises when the lookup does.\<close>

definition invited_membership :: "request_user \<Rightarrow> perm_object \<Rightarrow> py_exception + bool" where
  "invited_membership user obj =
     (case obj_invited_users obj of
        Inl exn \<Rightarrow> Inl exn
      | Inr uids \<Rightarrow> Inr (user_in user uids))"

text \<open>
  The result is \<open>Inr b\<close> when the method returns \<open>b\<close> and \<open>Inl exn\<close> when an exception
  leaves it. The two \<open>getattr\<close> calls are outside the \<open>try\<close>; the membership test is
  inside it, under \<open>except Exception\<close>.
\<close>

definition has_object_permission ::
    "request_user option \<Rightarrow> perm_object \<Rightarrow> py_exception + bool" where
  "has_object_permission request_user_opt obj =
     (case getattr_is_public obj of
        Inl exn \<Rightarrow> Inl exn
      | Inr public \<Rightarrow>
          if public then Inr True
          else
            (case request_user_opt of
               None \<Rightarrow> Inr False
             | Some user \<Rightarrow>
                 if \<not> is_authenticated user then Inr False
                 else
                   (case getattr_organizer obj of
                      Inl exn \<Rightarrow> Inl exn
                    | Inr organizer_opt \<Rightarrow>
                        if (case organizer_opt of
                              None \<Rightarrow> False
                            | Some uid \<Rightarrow> user_eq user uid)
                        then Inr True
                        else
                          (case invited_membership user obj of
                             Inl exn \<Rightarrow> Inr False
                           | Inr b \<Rightarrow> Inr b))))"

text \<open>
  \<open>IsOrganizerOrReadOnly.has_object_permission\<close>: safe methods pass, writes are for the
  organizer.
\<close>

datatype http_method = GET | HEAD | OPTIONS | POST | PUT | PATCH | DELETE

definition SAFE_METHODS :: "http_method list" where
  "SAFE_METHODS = [GET, HEAD, OPTIONS]"

definition is_organizer_or_read_only :: "http_method \<Rightarrow> request_user \<Rightarrow> event \<Rightarrow> bool" where
  "is_organizer_or_read_only method user obj =
     (if method \<in> set SAFE_METHODS then True else user_eq user (organizer obj))"

section \<open>The private-event check of \<open>event_detail_view\<close>\<close>

text \<open>
  \<open>event_detail_view\<close> redirects away (returns \<open>False\<close> here) exactly when the event is not
  public and the caller is not authenticated, or is neither the organizer nor invited.
\<close>

definition event_detail_allowed :: "request_user \<Rightarrow> event \<Rightarrow> bool" where
  "event_detail_allowed user e =
     (if \<not> is_public e then
        (if \<not> is_authenticated user
            \<or> (\<not> user_eq user (organizer e) \<and> \<not> user_in user (invited_users e))
         then False else True)
      else True)"

text \<open>
  The rule in the specification's words: true if the event is public; otherwise true
  precisely when the viewer is authenticated and is the organizer or one of the invited
  users.
\<close>

definition can_view_spec :: "request_user \<Rightarrow> event \<Rightarrow> bool" where
  "can_view_spec v e =
     (is_public e \<or>
      (is_authenticated v \<and>
        (v = User (organizer e) \<or> v \<in> set (map User (invited_users e)))))"

section \<open>Stored rows\<close>

text \<open>\<open>get_object_or_404(Event, id=event_id)\<close> and the view set's \<open>get_object()\<close>.\<close>

definition get_event :: "db \<Rightarrow> nat \<Rightarrow> event option" where
  "get_event d event_id = find (\<lambda>e. pk e = event_id) (events d)"

text \<open>
  An auto-increment primary key: larger than every key in the table. No operation of this
  model deletes a row, so no key is given twice.
\<close>

definition next_pk :: "nat list \<Rightarrow> nat" where
  "next_pk pks = Suc (fold max pks 0)"

section \<open>The RSVP ledger\<close>

text \<open>
  \<open>RSVPSerializer.validate_status\<close>, and the serializer's \<open>status\<close> field as a whole: a
  required choice field over \<open>STATUS_CHOICES\<close>, followed by \<open>validate_status\<close>.
\<close>

definition validate_status :: "string \<Rightarrow> error + string" where
  "validate_status v =
     (let allowed = map fst STATUS_CHOICES
      in if v \<notin> set allowed then Inl InvalidStatus else Inr v)"

definition serializer_status :: "string option \<Rightarrow> error + string" where
  "serializer_status data_status =
     (case data_status of
        None \<Rightarrow> Inl InvalidStatus
      | Some v \<Rightarrow> if v \<in> set (map fst STATUS_CHOICES) then validate_status v else Inl InvalidStatus)"

text \<open>The rows of one (event, user) pair: \<open>RSVP.objects.filter(event=..., user=...)\<close>.\<close>

definition rsvps_of :: "rsvp list \<Rightarrow> nat \<Rightarrow> nat \<Rightarrow> rsvp list" where
  "rsvps_of rows event_id user_id =
     filter (\<lambda>r. rsvp_event r = event_id \<and> rsvp_user r = user_id) rows"

text \<open>
  What the database guarantees of the table: primary keys are unique, and so are the
  (event, user) pairs (\<open>unique_together\<close>).
\<close>

definition rsvp_table_ok :: "rsvp list \<Rightarrow> bool" where
  "rsvp_table_ok rows =
     (distinct (map rsvp_pk rows) \<and> distinct (map (\<lambda>r. (rsvp_event r, rsvp_user r)) rows))"

text \<open>
  Writing one RSVP row back (\<open>save()\<close> on a stored instance): an \<open>UPDATE\<close> of the row with
  that primary key, refused by the \<open>unique_together = ('event', 'user')\<close> constraint when
  another row already holds the pair.
\<close>

definition rsvp_save :: "rsvp list \<Rightarrow> rsvp \<Rightarrow> error + rsvp list" where
  "rsvp_save rows obj =
     (if \<exists>r \<in> set rows. rsvp_pk r \<noteq> rsvp_pk obj
            \<and> rsvp_event r = rsvp_event obj \<and> rsvp_user r = rsvp_user obj
      then Inl IntegrityError
      else Inr (map (\<lambda>r. if rsvp_pk r = rsvp_pk obj then obj else r) rows))"

text \<open>
  \<open>RSVP.objects.update_or_create(event=event, user=request.user, defaults={'status': v})\<close>:
  look the pair up (more than one match raises), update the row found, or insert a new
  one whose \<open>created_at\<close> is the current time (\<open>auto_now_add\<close>).
\<close>

definition rsvp_update_or_create ::
    "rsvp list \<Rightarrow> int \<Rightarrow> nat \<Rightarrow> nat \<Rightarrow> string \<Rightarrow> error + (rsvp list \<times> rsvp \<times> bool)" where
  "rsvp_update_or_create rows now event_id user_id status_value =
     (case rsvps_of rows event_id user_id of
        [] \<Rightarrow>
          (let obj = \<lparr>rsvp_pk = next_pk (map rsvp_pk rows), rsvp_event = event_id,
                      rsvp_user = user_id, rsvp_status = status_value, rsvp_created_at = now\<rparr>
           in Inr (rows @ [obj], obj, True))
      | [found] \<Rightarrow>
          (let obj = found\<lparr>rsvp_status := status_value\<rparr>
           in case rsvp_save rows obj of
                Inl err \<Rightarrow> Inl err
              | Inr rows' \<Rightarrow> Inr (rows', obj, False))
      | _ \<Rightarrow> Inl MultipleObjectsReturned)"

definition HTTP_200_OK :: nat where "HTTP_200_OK = 200"
definition HTTP_201_CREATED :: nat where "HTTP_201_CREATED = 201"

text \<open>
  \<open>EventViewSet.rsvp\<close> (\<open>POST /api/events/{id}/rsvp/\<close>). The permission class
  \<open>IsAuthenticated\<close> runs first, then \<open>get_object()\<close>, the private-event gate, the
  serializer and the upsert. A success returns the new tables, the row and the response
  status.
\<close>

definition rsvp ::
    "db \<Rightarrow> int \<Rightarrow> request_user option \<Rightarrow> nat \<Rightarrow> string option \<Rightarrow> error + (db \<times> rsvp \<times> nat)" where
  "rsvp d now request_user event_id data_status =
     (case request_user of
        None \<Rightarrow> Inl NotAuthenticated
      | Some AnonymousUser \<Rightarrow> Inl NotAuthenticated
      | Some (User uid) \<Rightarrow>
          (case get_event d event_id of
             None \<Rightarrow> Inl NotFound
           | Some event \<Rightarrow>
               if \<not> is_public event \<and> \<not> user_eq (User uid) (organizer event)
                  \<and> \<not> user_in (User uid) (invited_users event)
               then Inl Forbidden
               else
                 (case serializer_status data_status of
                    Inl err \<Rightarrow> Inl err
                  | Inr status_value \<Rightarrow>
                      (case rsvp_update_or_create (rsvps d) now (pk event) uid status_value of
                         Inl err \<Rightarrow> Inl err
                       | Inr (rows, rsvp_obj, created) \<Rightarrow>
                           Inr (d\<lparr>rsvps := rows\<rparr>, rsvp_obj,
                                if created then HTTP_201_CREATED else HTTP_200_OK)))))"

text \<open>
  \<open>rsvp_create_or_update\<close>, the web form's entry point. \<open>@login_required\<close> sends an
  anonymous caller to the login page; a request that is not a \<open>POST\<close> only redirects.
\<close>

definition rsvp_create_or_update ::
    "db \<Rightarrow> int \<Rightarrow> request_user \<Rightarrow> nat \<Rightarrow> http_method \<Rightarrow> string option \<Rightarrow> error + db" where
  "rsvp_create_or_update d now request_user event_id method post_status =
     (case request_user of
        AnonymousUser \<Rightarrow> Inl NotAuthenticated
      | User uid \<Rightarrow>
          (case get_event d event_id of
             None \<Rightarrow> Inl NotFound
           | Some event \<Rightarrow>
               if \<not> is_public event \<and> \<not> user_eq (User uid) (organizer event)
                  \<and> \<not> user_in (User uid) (invited_users event)
               then Inl Forbidden
               else if method = POST then
                 (case post_status of
                    None \<Rightarrow> Inl InvalidStatus
                  | Some status_value \<Rightarrow>
                      if status_value \<notin> set (map fst STATUS_CHOICES) then Inl InvalidStatus
                      else
                        (case rsvp_update_or_create (rsvps d) now (pk event) uid status_value of
                           Inl err \<Rightarrow> Inl err
                         | Inr (rows, rsvp_obj, created) \<Rightarrow> Inr (d\<lparr>rsvps := rows\<rparr>)))
               else Inr d))"

text \<open>
  The body of a \<open>PATCH /api/events/{id}/rsvp/{user_id}/\<close> request, as far as the
  serializer reads it: \<open>RSVPSerializer\<close> has two writable fields, \<open>event\<close> (a primary key)
  and \<open>status\<close>; \<open>id\<close>, \<open>user\<close> and \<open>created_at\<close> are read-only and ignored on input.
\<close>

record rsvp_data =
  data_event :: "nat option"
  data_status :: "string option"

text \<open>
  \<open>get_object_or_404(RSVP, event=event, user__id=user_id)\<close>.
\<close>

definition get_rsvp :: "rsvp list \<Rightarrow> nat \<Rightarrow> nat \<Rightarrow> error + rsvp" where
  "get_rsvp rows event_id user_id =
     (case rsvps_of rows event_id user_id of
        [] \<Rightarrow> Inl NotFound
      | [found] \<Rightarrow> Inr found
      | _ \<Rightarrow> Inl MultipleObjectsReturned)"

text \<open>
  \<open>RSVPSerializer(rsvp, data=request.data, partial=True)\<close>: each writable field that the
  body carries is validated (an \<open>event\<close> key must name a stored event), and \<open>save()\<close>
  assigns every validated field to the instance and writes it back.
\<close>

definition rsvp_partial_update :: "db \<Rightarrow> rsvp \<Rightarrow> rsvp_data \<Rightarrow> error + rsvp" where
  "rsvp_partial_update d instance data =
     (case (case data_event data of
              None \<Rightarrow> Inr instance
            | Some event_id \<Rightarrow>
                (case get_event d event_id of
                   None \<Rightarrow> Inl ValidationError
                 | Some event \<Rightarrow> Inr (instance\<lparr>rsvp_event := pk event\<rparr>))) of
        Inl err \<Rightarrow> Inl err
      | Inr instance' \<Rightarrow>
          (case data_status data of
             None \<Rightarrow> Inr instance'
           | Some v \<Rightarrow>
               (case serializer_status (Some v) of
                  Inl err \<Rightarrow> Inl err
                | Inr status_value \<Rightarrow> Inr (instance'\<lparr>rsvp_status := status_value\<rparr>))))"

text \<open>\<open>EventViewSet.update_rsvp\<close>.\<close>

definition update_rsvp ::
    "db \<Rightarrow> request_user option \<Rightarrow> nat \<Rightarrow> nat \<Rightarrow> rsvp_data \<Rightarrow> error + (db \<times> rsvp)" where
  "update_rsvp d request_user event_id user_id data =
     (case request_user of
        None \<Rightarrow> Inl NotAuthenticated
      | Some AnonymousUser \<Rightarrow> Inl NotAuthenticated
      | Some (User uid) \<Rightarrow>
          (case get_event d event_id of
             None \<Rightarrow> Inl NotFound
           | Some event \<Rightarrow>
               (case get_rsvp (rsvps d) (pk event) user_id of
                  Inl err \<Rightarrow> Inl err
                | Inr rsvp_obj \<Rightarrow>
                    if \<not> user_eq (User uid) (rsvp_user rsvp_obj)
                       \<and> \<not> user_eq (User uid) (organizer event)
                    then Inl Forbidden
                    else
                      (case rsvp_partial_update d rsvp_obj data of
                         Inl err \<Rightarrow> Inl err
                       | Inr rsvp_obj' \<Rightarrow>
                           (case rsvp_save (rsvps d) rsvp_obj' of
                              Inl err \<Rightarrow> Inl err
                            | Inr rows \<Rightarrow> Inr (d\<lparr>rsvps := rows\<rparr>, rsvp_obj'))))))"

section \<open>Sequences of RSVP requests\<close>

text \<open>
  A request to \<open>POST /api/events/{id}/rsvp/\<close> with the time at which it is served. A
  request that fails leaves the tables as they are.
\<close>

record rsvp_request =
  req_now :: int
  req_user :: "request_user option"
  req_event :: nat
  req_status :: "string option"

definition rsvp_step :: "db \<Rightarrow> rsvp_request \<Rightarrow> db" where
  "rsvp_step d q =
     (case rsvp d (req_now q) (req_user q) (req_event q) (req_status q) of
        Inl err \<Rightarrow> d
      | Inr (d', rsvp_obj, code) \<Rightarrow> d')"

fun rsvp_run :: "db \<Rightarrow> rsvp_request list \<Rightarrow> db" where
  "rsvp_run d [] = d"
| "rsvp_run d (q # qs) = rsvp_run (rsvp_step d q) qs"

text \<open>
  The status sent by the most recent successful request of user \<open>user_id\<close> for event
  \<open>event_id\<close> in a sequence served from \<open>d\<close>, if there is one.
\<close>

fun latest_rsvp :: "db \<Rightarrow> rsvp_request list \<Rightarrow> nat \<Rightarrow> nat \<Rightarrow> string option" where
  "latest_rsvp d [] event_id user_id = None"
| "latest_rsvp d (q # qs) event_id user_id =
     (case latest_rsvp (rsvp_step d q) qs event_id user_id of
        Some s \<Rightarrow> Some s
      | None \<Rightarrow>
          (case rsvp d (req_now q) (req_user q) (req_event q) (req_status q) of
             Inl err \<Rightarrow> None
           | Inr ok \<Rightarrow>
               if req_event q = event_id \<and> req_user q = Some (User user_id)
               then req_status q else None))"

section \<open>Python's \<open>str.strip\<close> and \<open>int\<close> on text\<close>

text \<open>
  The whitespace of \<open>str.strip()\<close> and \<open>str.isspace()\<close>: the code points 0x09 to 0x0D, 0x1C
  to 0x1F and 0x20 of ASCII, and beyond ASCII 0x85, 0xA0, 0x1680, 0x2000 to 0x200A, 0x2028,
  0x2029, 0x202F, 0x205F and 0x3000.
\<close>

definition py_isspace :: "nat \<Rightarrow> bool" where
  "py_isspace c =
     ((0x09 \<le> c \<and> c \<le> 0x0D) \<or> (0x1C \<le> c \<and> c \<le> 0x20) \<or> c = 0x85 \<or> c = 0xA0
      \<or> c = 0x1680 \<or> (0x2000 \<le> c \<and> c \<le> 0x200A) \<or> c = 0x2028 \<or> c = 0x2029
      \<or> c = 0x202F \<or> c = 0x205F \<or> c = 0x3000)"

definition lstrip :: "py_str \<Rightarrow> py_str" where
  "lstrip s = dropWhile py_isspace s"

definition rstrip :: "py_str \<Rightarrow> py_str" where
  "rstrip s = rev (dropWhile py_isspace (rev s))"

definition strip :: "py_str \<Rightarrow> py_str" where
  "strip s = rstrip (lstrip s)"

text \<open>
  ``\<open>t\<close> is \<open>s\<close> trimmed of leading and trailing whitespace'', in the specification's
  words: \<open>s\<close> is \<open>t\<close> between two runs of whitespace, and \<open>t\<close> neither starts nor ends
  with whitespace.
\<close>

definition trimmed_of :: "py_str \<Rightarrow> py_str \<Rightarrow> bool" where
  "trimmed_of s t =
     ((\<exists>pre post. s = pre @ t @ post \<and> list_all py_isspace pre \<and> list_all py_isspace post)
      \<and> (t = [] \<or> (\<not> py_isspace (hd t) \<and> \<not> py_isspace (last t))))"

text \<open>
  What \<open>int()\<close> takes from the interpreter it runs on: the decimal value that the Unicode
  database gives a code point outside ASCII (\<open>None\<close> when it is not a decimal digit), and
  the limit on the number of digits of a literal (\<open>sys.get_int_max_str_digits()\<close>, 0 when
  there is none).
\<close>

record interpreter =
  unicode_decimal :: "nat \<Rightarrow> nat option"
  int_max_str_digits :: nat

text \<open>
  \<open>int(s)\<close> first rewrites the text to ASCII: code points below 128 stay, any other
  whitespace becomes a space, any other decimal digit becomes its ASCII digit, and
  anything else makes the text invalid.
\<close>

definition to_ascii :: "interpreter \<Rightarrow> nat \<Rightarrow> nat option" where
  "to_ascii py c =
     (if c < 128 then Some c
      else if py_isspace c then Some 0x20
      else map_option (\<lambda>v. 0x30 + v) (unicode_decimal py c))"

definition transform_decimal_and_space :: "interpreter \<Rightarrow> py_str \<Rightarrow> py_str option" where
  "transform_decimal_and_space py s = those (map (to_ascii py) s)"

text \<open>
  The whitespace that the parser of the ASCII text skips at both ends (the C locale's
  \<open>isspace\<close>: 0x09 to 0x0D and the space, without 0x1C to 0x1F), and its digits.
\<close>

definition ascii_isspace :: "nat \<Rightarrow> bool" where
  "ascii_isspace c = ((0x09 \<le> c \<and> c \<le> 0x0D) \<or> c = 0x20)"

definition is_digit :: "nat \<Rightarrow> bool" where
  "is_digit c = (0x30 \<le> c \<and> c \<le> 0x39)"

definition digit_value :: "nat \<Rightarrow> int" where
  "digit_value c = int c - 0x30"

text \<open>
  The digits of a decimal literal after the first: more digits, or a single underscore
  (0x5F) followed by a digit.
\<close>

fun digits_value :: "int \<Rightarrow> py_str \<Rightarrow> int option" where
  "digits_value acc [] = Some acc"
| "digits_value acc (c # cs) =
     (if is_digit c then digits_value (10 * acc + digit_value c) cs
      else if c = 0x5F then
        (case cs of
           [] \<Rightarrow> None
         | c' # cs' \<Rightarrow> if is_digit c' then digits_value acc cs else None)
      else None)"

definition unsigned_value :: "py_str \<Rightarrow> int option" where
  "unsigned_value s =
     (case s of
        [] \<Rightarrow> None
      | c # cs \<Rightarrow> if is_digit c then digits_value (digit_value c) cs else None)"

text \<open>
  The parser of the ASCII text, base 10: whitespace, one optional sign (0x2B, 0x2D), the
  run of digits and underscores, whitespace, and then the end of the text. The run must
  be a literal (it starts and ends with a digit and has no two underscores in a row) and,
  when the interpreter sets a limit and the run has more than 640 digits, must not have
  more digits than the limit. \<open>None\<close> stands for the \<open>ValueError\<close>.
\<close>

definition long_from_string :: "nat \<Rightarrow> py_str \<Rightarrow> int option" where
  "long_from_string max_digits buf =
     (let s1 = dropWhile ascii_isspace buf;
          negative = (case s1 of [] \<Rightarrow> False | c # r \<Rightarrow> c = 0x2D);
          s2 = (case s1 of [] \<Rightarrow> [] | c # r \<Rightarrow> if c = 0x2B \<or> c = 0x2D then r else s1);
          body = takeWhile (\<lambda>c. is_digit c \<or> c = 0x5F) s2;
          rest = dropWhile (\<lambda>c. is_digit c \<or> c = 0x5F) s2;
          digits = length (filter is_digit body)
      in case unsigned_value body of
           None \<Rightarrow> None
         | Some v \<Rightarrow>
             if 640 < digits \<and> 0 < max_digits \<and> max_digits < digits then None
             else if dropWhile ascii_isspace rest \<noteq> [] then None
             else Some (if negative then - v else v))"

text \<open>\<open>int(s)\<close> for a text \<open>s\<close>.\<close>

definition py_int :: "interpreter \<Rightarrow> py_str \<Rightarrow> int option" where
  "py_int py s =
     (case transform_decimal_and_space py s of
        None \<Rightarrow> None
      | Some buf \<Rightarrow> long_from_string (int_max_str_digits py) buf)"

section \<open>The review ledger\<close>

text \<open>The rows of one (event, user) pair, and what the database guarantees of the table.\<close>

definition reviews_of :: "review list \<Rightarrow> nat \<Rightarrow> nat \<Rightarrow> review list" where
  "reviews_of rows event_id user_id =
     filter (\<lambda>r. review_event r = event_id \<and> review_user r = user_id) rows"

definition review_table_ok :: "review list \<Rightarrow> bool" where
  "review_table_ok rows =
     (distinct (map review_pk rows)
      \<and> distinct (map (\<lambda>r. (review_event r, review_user r)) rows))"

text \<open>
  \<open>Review.objects.filter(event=event, user=request.user).first()\<close>: the first row in the
  model's default ordering, newest \<open>created_at\<close> first. Among rows of equal \<open>created_at\<close>
  the earliest stored one is taken here; the \<open>unique_together\<close> constraint leaves at most
  one row to choose from.
\<close>

fun newest :: "review \<Rightarrow> review list \<Rightarrow> review" where
  "newest best [] = best"
| "newest best (r # rs) =
     (if review_created_at best < review_created_at r then newest r rs else newest best rs)"

definition review_first :: "review list \<Rightarrow> nat \<Rightarrow> nat \<Rightarrow> review option" where
  "review_first rows event_id user_id =
     (case reviews_of rows event_id user_id of
        [] \<Rightarrow> None
      | r # rs \<Rightarrow> Some (newest r rs))"

text \<open>
  \<open>existing.save()\<close> and \<open>Review.objects.create(...)\<close>, both under the constraint
  \<open>unique_together = ('event', 'user')\<close>.
\<close>

definition review_save :: "review list \<Rightarrow> review \<Rightarrow> error + review list" where
  "review_save rows obj =
     (if \<exists>r \<in> set rows. review_pk r \<noteq> review_pk obj
            \<and> review_event r = review_event obj \<and> review_user r = review_user obj
      then Inl IntegrityError
      else Inr (map (\<lambda>r. if review_pk r = review_pk obj then obj else r) rows))"

definition review_create ::
    "review list \<Rightarrow> int \<Rightarrow> nat \<Rightarrow> nat \<Rightarrow> int \<Rightarrow> py_str \<Rightarrow> error + (review list \<times> review)" where
  "review_create rows now event_id user_id rating_value comment_value =
     (if \<exists>r \<in> set rows. review_event r = event_id \<and> review_user r = user_id
      then Inl IntegrityError
      else
        (let obj = \<lparr>review_pk = next_pk (map review_pk rows), review_event = event_id,
                    review_user = user_id, rating = rating_value, comment = comment_value,
                    review_created_at = now\<rparr>
         in Inr (rows @ [obj], obj)))"

text \<open>
  The rating check of the web form: \<open>int(rating)\<close> must succeed (a missing field gives
  \<open>int(None)\<close>, a \<open>TypeError\<close>) with a value from 1 to 5.
\<close>

definition form_rating :: "interpreter \<Rightarrow> py_str option \<Rightarrow> int option" where
  "form_rating py rating_field =
     (case rating_field of
        None \<Rightarrow> None
      | Some s \<Rightarrow>
          (case py_int py s of
             None \<Rightarrow> None
           | Some rating_int \<Rightarrow> if rating_int < 1 \<or> rating_int > 5 then None else Some rating_int))"

text \<open>\<open>request.POST.get(name, "")\<close> for a form field that may be missing.\<close>

definition post_get :: "py_str option \<Rightarrow> py_str" where
  "post_get field = (case field of None \<Rightarrow> [] | Some v \<Rightarrow> v)"

text \<open>
  \<open>post_review\<close> of the web form (\<open>frontend_views.py\<close>). There is no visibility check
  between \<open>get_object_or_404\<close> and the validation.
\<close>

definition post_review ::
    "interpreter \<Rightarrow> db \<Rightarrow> int \<Rightarrow> request_user \<Rightarrow> nat \<Rightarrow> http_method \<Rightarrow> py_str option
      \<Rightarrow> py_str option \<Rightarrow> error + db" where
  "post_review py d now request_user event_id method post_rating post_comment =
     (case request_user of
        AnonymousUser \<Rightarrow> Inl NotAuthenticated
      | User uid \<Rightarrow>
          (case get_event d event_id of
             None \<Rightarrow> Inl NotFound
           | Some event \<Rightarrow>
               if method = POST then
                 (let comment_value = strip (post_get post_comment)
                  in case form_rating py post_rating of
                       None \<Rightarrow> Inl InvalidRating
                     | Some rating_int \<Rightarrow>
                         (case review_first (reviews d) (pk event) uid of
                            Some existing \<Rightarrow>
                              (case review_save (reviews d)
                                      (existing\<lparr>rating := rating_int, comment := comment_value\<rparr>) of
                                 Inl err \<Rightarrow> Inl err
                               | Inr rows \<Rightarrow> Inr (d\<lparr>reviews := rows\<rparr>))
                          | None \<Rightarrow>
                              (case review_create (reviews d) now (pk event) uid
                                      rating_int comment_value of
                                 Inl err \<Rightarrow> Inl err
                               | Inr (rows, obj) \<Rightarrow> Inr (d\<lparr>reviews := rows\<rparr>))))
               else Inr d))"

text \<open>
  \<open>ReviewSerializer.validate_rating\<close>, on the values a request can carry: an integer, a
  string, or nothing.
\<close>

datatype py_value = PyNone | PyInt int | PyStr py_str

definition validate_rating :: "interpreter \<Rightarrow> py_value \<Rightarrow> error + int" where
  "validate_rating py v =
     (case (case v of
              PyInt i \<Rightarrow> Some i
            | PyStr s \<Rightarrow> py_int py s
            | PyNone \<Rightarrow> None) of
        None \<Rightarrow> Inl InvalidRating
      | Some i \<Rightarrow> if i < 1 \<or> i > 5 then Inl InvalidRating else Inr i)"

text \<open>
  A character field of the serializer: the value is trimmed; an empty result is returned
  as it is when blanks are allowed and refused otherwise; any other result is refused when
  it holds the NUL character or a surrogate (0xD800 to 0xDFFF), which the field's
  validators prohibit, or is longer than \<open>max_length\<close> code points.
\<close>

definition char_field :: "bool \<Rightarrow> nat option \<Rightarrow> py_str \<Rightarrow> py_str option" where
  "char_field allow_blank max_length v =
     (let s = strip v
      in if s = [] then (if allow_blank then Some [] else None)
         else if 0 \<in> set s \<or> list_ex (\<lambda>c. 0xD800 \<le> c \<and> c \<le> 0xDFFF) s then None
         else (case max_length of
                 None \<Rightarrow> Some s
               | Some n \<Rightarrow> if n < length s then None else Some s))"

text \<open>
  The body of \<open>POST /api/events/{id}/reviews/\<close>: \<open>data_rating\<close> is the integer the
  serializer's integer field read the \<open>rating\<close> as (\<open>None\<close> when it is missing or is not
  an integer), \<open>data_comment\<close> the text of the optional comment.
\<close>

record review_data =
  data_rating :: "int option"
  data_comment :: "py_str option"

text \<open>
  The \<open>POST\<close> branch of \<open>EventViewSet.reviews\<close>. \<open>IsAuthenticatedOrReadOnly\<close> admits an
  authenticated caller, \<open>get_object()\<close> finds the event, the serializer validates, and
  \<open>serializer.save(user=request.user)\<close> inserts a row: this path never looks for an
  existing review, and never checks who may see the event.
\<close>

definition reviews_post ::
    "interpreter \<Rightarrow> db \<Rightarrow> int \<Rightarrow> request_user option \<Rightarrow> nat \<Rightarrow> review_data
      \<Rightarrow> error + (db \<times> review \<times> nat)" where
  "reviews_post py d now request_user event_id data =
     (case request_user of
        None \<Rightarrow> Inl NotAuthenticated
      | Some AnonymousUser \<Rightarrow> Inl NotAuthenticated
      | Some (User uid) \<Rightarrow>
          (case get_event d event_id of
             None \<Rightarrow> Inl NotFound
           | Some event \<Rightarrow>
               (case data_rating data of
                  None \<Rightarrow> Inl InvalidRating
                | Some i \<Rightarrow>
                    (case validate_rating py (PyInt i) of
                       Inl err \<Rightarrow> Inl err
                     | Inr rating_value \<Rightarrow>
                         (case char_field True None (post_get (data_comment data)) of
                            None \<Rightarrow> Inl ValidationError
                          | Some comment_value \<Rightarrow>
                              (case review_create (reviews d) now (pk event) uid rating_value
                                      comment_value of
                                 Inl err \<Rightarrow> Inl err
                               | Inr (rows, obj) \<Rightarrow>
                                   Inr (d\<lparr>reviews := rows\<rparr>, obj, HTTP_201_CREATED)))))))"

section \<open>Writing events through the API\<close>

text \<open>
  The body of a create or update request: the texts as sent, the times, the flag and the
  invited primary keys as the serializer's fields read them. A field is \<open>None\<close> when the
  parsed body gives it no value; a form-encoded body always gives \<open>is_public\<close> one (a flag
  that is not sent reads as false), a JSON body may leave it out. Times are instants on a
  common scale (timezone-aware datetimes compare by instant).
\<close>

record event_data =
  data_title :: "py_str option"
  data_description :: "py_str option"
  data_location :: "py_str option"
  data_start_time :: "int option"
  data_end_time :: "int option"
  data_is_public :: "bool option"
  data_invited_users :: "nat list option"

text \<open>
  Field-level validation of \<open>EventSerializer\<close>, which runs before \<open>validate\<close>: \<open>title\<close>,
  \<open>location\<close>, \<open>start_time\<close> and \<open>end_time\<close> are required unless the update is partial, and
  every invited primary key must name a stored user. The result is the cleaned data.
\<close>

definition opt_field :: "('a \<Rightarrow> 'b option) \<Rightarrow> 'a option \<Rightarrow> 'b option option" where
  "opt_field check v = (case v of None \<Rightarrow> Some None | Some x \<Rightarrow> map_option Some (check x))"

definition event_fields :: "db \<Rightarrow> bool \<Rightarrow> event_data \<Rightarrow> event_data option" where
  "event_fields d partial data =
     (if \<not> partial \<and> (data_title data = None \<or> data_location data = None
            \<or> data_start_time data = None \<or> data_end_time data = None)
      then None
      else
        (case (opt_field (char_field False (Some 255)) (data_title data),
               opt_field (char_field True None) (data_description data),
               opt_field (char_field False (Some 255)) (data_location data),
               opt_field (\<lambda>pks. if set pks \<subseteq> set (map fst (users d)) then Some pks else None)
                  (data_invited_users data)) of
           (Some t, Some ds, Some l, Some invs) \<Rightarrow>
             Some (data\<lparr>data_title := t, data_description := ds, data_location := l,
                        data_invited_users := invs\<rparr>)
         | _ \<Rightarrow> None))"

text \<open>
  \<open>EventSerializer.validate\<close>: a time the data lacks is read from the instance being
  updated, when there is one.
\<close>

definition validate :: "event option \<Rightarrow> event_data \<Rightarrow> error + event_data" where
  "validate instance data =
     (let start = (case data_start_time data of
                     Some t \<Rightarrow> Some t
                   | None \<Rightarrow> (case instance of None \<Rightarrow> None | Some i \<Rightarrow> Some (start_time i)));
          end' = (case data_end_time data of
                   Some t \<Rightarrow> Some t
                 | None \<Rightarrow> (case instance of None \<Rightarrow> None | Some i \<Rightarrow> Some (end_time i)))
      in case (start, end') of
           (Some s, Some e) \<Rightarrow> if s \<ge> e then Inl ValidationError else Inr data
         | _ \<Rightarrow> Inr data)"

text \<open>
  \<open>POST /api/events/\<close>: \<open>IsAuthenticated\<close>, the serializer, then
  \<open>serializer.save(organizer=request.user)\<close>, which runs \<open>EventSerializer.create\<close>. A row
  without one of its non-null columns would be refused by the database.
\<close>

definition create_event ::
    "db \<Rightarrow> int \<Rightarrow> request_user option \<Rightarrow> event_data \<Rightarrow> error + (db \<times> event)" where
  "create_event d now request_user data =
     (case request_user of
        None \<Rightarrow> Inl NotAuthenticated
      | Some AnonymousUser \<Rightarrow> Inl NotAuthenticated
      | Some (User uid) \<Rightarrow>
          (case event_fields d False data of
             None \<Rightarrow> Inl ValidationError
           | Some cleaned \<Rightarrow>
               (case validate None cleaned of
                  Inl err \<Rightarrow> Inl err
                | Inr validated_data \<Rightarrow>
                    (case (data_title validated_data, data_location validated_data,
                           data_start_time validated_data, data_end_time validated_data) of
                       (Some t, Some l, Some s, Some e) \<Rightarrow>
                         (let ev = \<lparr>pk = next_pk (map pk (events d)),
                                     title = t,
                                     description =
                                       (case data_description validated_data of
                                          None \<Rightarrow> [] | Some ds \<Rightarrow> ds),
                                     organizer = uid,
                                     location = l,
                                     start_time = s,
                                     end_time = e,
                                     is_public =
                                       (case data_is_public validated_data of
                                          None \<Rightarrow> True | Some b \<Rightarrow> b),
                                     invited_users =
                                       (case data_invited_users validated_data of
                                          None \<Rightarrow> [] | Some invs \<Rightarrow> remdups invs),
                                     created_at = now,
                                     updated_at = now\<rparr>
                          in Inr (d\<lparr>events := events d @ [ev]\<rparr>, ev))
                     | _ \<Rightarrow> Inl IntegrityError))))"

text \<open>
  \<open>EventSerializer.update\<close>: every validated field is assigned to the instance, the row
  is written back (\<open>updated_at\<close> is \<open>auto_now\<close>), and the invited users are replaced when the
  data names them.
\<close>

definition update :: "event \<Rightarrow> int \<Rightarrow> event_data \<Rightarrow> event" where
  "update instance now validated_data =
     instance
       \<lparr>title := (case data_title validated_data of None \<Rightarrow> title instance | Some t \<Rightarrow> t),
        description :=
          (case data_description validated_data of None \<Rightarrow> description instance | Some ds \<Rightarrow> ds),
        location :=
          (case data_location validated_data of None \<Rightarrow> location instance | Some l \<Rightarrow> l),
        start_time :=
          (case data_start_time validated_data of None \<Rightarrow> start_time instance | Some s \<Rightarrow> s),
        end_time :=
          (case data_end_time validated_data of None \<Rightarrow> end_time instance | Some e \<Rightarrow> e),
        is_public :=
          (case data_is_public validated_data of None \<Rightarrow> is_public instance | Some b \<Rightarrow> b),
        invited_users :=
          (case data_invited_users validated_data of
             None \<Rightarrow> invited_users instance | Some invs \<Rightarrow> remdups invs),
        updated_at := now\<rparr>"

text \<open>
  \<open>PUT\<close> and \<open>PATCH /api/events/{id}/\<close> under the default permission stack
  \<open>[IsAuthenticatedOrReadOnly, IsOrganizerOrReadOnly]\<close>; \<open>partial\<close> is true for \<open>PATCH\<close>.
\<close>

definition update_event ::
    "db \<Rightarrow> int \<Rightarrow> request_user option \<Rightarrow> nat \<Rightarrow> bool \<Rightarrow> event_data \<Rightarrow> error + (db \<times> event)" where
  "update_event d now request_user event_id partial data =
     (case request_user of
        None \<Rightarrow> Inl NotAuthenticated
      | Some AnonymousUser \<Rightarrow> Inl NotAuthenticated
      | Some (User uid) \<Rightarrow>
          (case get_event d event_id of
             None \<Rightarrow> Inl NotFound
           | Some instance \<Rightarrow>
               if \<not> is_organizer_or_read_only (if partial then PATCH else PUT) (User uid) instance
               then Inl Forbidden
               else
                 (case event_fields d partial data of
                    None \<Rightarrow> Inl ValidationError
                  | Some cleaned \<Rightarrow>
                      (case validate (Some instance) cleaned of
                         Inl err \<Rightarrow> Inl err
                       | Inr validated_data \<Rightarrow>
                           (let ev = update instance now validated_data
                            in Inr (d\<lparr>events := map (\<lambda>e. if pk e = pk ev then ev else e) (events d)\<rparr>,
                                    ev))))))"

section \<open>Creating an event through the web form\<close>

text \<open>
  Django's \<open>parse_datetime\<close> and \<open>make_aware\<close> are parameters of the model. A parse
  returns \<open>Inr None\<close> for text that is not a datetime, \<open>Inr (Some dt)\<close> for a datetime,
  naive or aware, and \<open>Inl ValueError\<close> for well-formed text that names no real date.
\<close>

datatype datetime = Naive int | Aware int

definition parse_datetime_input ::
    "(py_str \<Rightarrow> error + datetime option) \<Rightarrow> (int \<Rightarrow> int) \<Rightarrow> py_str \<Rightarrow> error + int option" where
  "parse_datetime_input parse_datetime make_aware v =
     (if v = [] then Inr None
      else
        (case parse_datetime v of
           Inl err \<Rightarrow> Inl err
         | Inr first \<Rightarrow>
             (let dt = (case first of
                          Some x \<Rightarrow> Some x
                        | None \<Rightarrow>
                            (case parse_datetime (map (\<lambda>c. if c = 0x20 then 0x54 else c) v) of
                               Inl err \<Rightarrow> None
                             | Inr second \<Rightarrow> second))
              in case dt of
                   None \<Rightarrow> Inr None
                 | Some (Naive t) \<Rightarrow> Inr (Some (make_aware t))
                 | Some (Aware t) \<Rightarrow> Inr (Some t))))"

text \<open>\<open>str.split(",")\<close>; the comma is 0x2C.\<close>

fun split_comma :: "py_str \<Rightarrow> py_str list" where
  "split_comma [] = [[]]"
| "split_comma (c # cs) =
     (if c = 0x2C then [] # split_comma cs
      else (case split_comma cs of
              [] \<Rightarrow> [[c]]
            | w # ws \<Rightarrow> (c # w) # ws))"

text \<open>
  The loop over the invited usernames: a known username adds its user to the event's
  invited set, an unknown one adds a warning and is skipped.
\<close>

fun invite_usernames ::
    "(nat \<times> py_str) list \<Rightarrow> py_str list \<Rightarrow> nat list \<Rightarrow> py_str list
      \<Rightarrow> nat list \<times> py_str list" where
  "invite_usernames us [] invited warnings = (invited, warnings)"
| "invite_usernames us (uname # unames) invited warnings =
     (case find (\<lambda>u. snd u = uname) us of
        Some u \<Rightarrow>
          invite_usernames us unames
            (if fst u \<in> set invited then invited else invited @ [fst u]) warnings
      | None \<Rightarrow> invite_usernames us unames invited (warnings @ [uname]))"

record event_form =
  post_title :: "py_str option"
  post_description :: "py_str option"
  post_location :: "py_str option"
  post_start_time :: "py_str option"
  post_end_time :: "py_str option"
  post_is_public :: "py_str option"
  post_invited_users :: "py_str option"

text \<open>
  \<open>create_event_view\<close> for a \<open>POST\<close>. Each rejection of the form (a message and a redirect
  back to it) is a \<open>ValidationError\<close>; a success returns the tables, the event and the
  warnings about unknown usernames.
\<close>

definition create_event_view ::
    "(py_str \<Rightarrow> error + datetime option) \<Rightarrow> (int \<Rightarrow> int) \<Rightarrow> db \<Rightarrow> int \<Rightarrow> request_user
      \<Rightarrow> event_form \<Rightarrow> error + (db \<times> event \<times> py_str list)" where
  "create_event_view parse_datetime make_aware d now request_user form =
     (case request_user of
        AnonymousUser \<Rightarrow> Inl NotAuthenticated
      | User uid \<Rightarrow>
          (let title_value = strip (post_get (post_title form));
               description_value = strip (post_get (post_description form));
               location_value = strip (post_get (post_location form));
               start_raw = strip (post_get (post_start_time form));
               end_raw = strip (post_get (post_end_time form));
               is_public_value = (post_get (post_is_public form) \<noteq> []);
               invited_input = strip (post_get (post_invited_users form))
           in if title_value = [] then Inl ValidationError
              else if start_raw = [] \<or> end_raw = [] then Inl ValidationError
              else
                (case parse_datetime_input parse_datetime make_aware start_raw of
                   Inl err \<Rightarrow> Inl err
                 | Inr start_dt \<Rightarrow>
                     (case parse_datetime_input parse_datetime make_aware end_raw of
                        Inl err \<Rightarrow> Inl err
                      | Inr end_dt \<Rightarrow>
                          (case (start_dt, end_dt) of
                             (Some s, Some e) \<Rightarrow>
                               if s \<ge> e then Inl ValidationError
                               else
                                 (let usernames =
                                        filter (\<lambda>u. u \<noteq> [])
                                          (map strip
                                             (if invited_input = [] then []
                                              else split_comma invited_input));
                                      (invited, warnings) =
                                        invite_usernames (users d) usernames [] [];
                                      ev = \<lparr>pk = next_pk (map pk (events d)),
                                            title = title_value,
                                            description = description_value,
                                            organizer = uid,
                                            location = location_value,
                                            start_time = s,
                                            end_time = e,
                                            is_public = is_public_value,
                                            invited_users = invited,
                                            created_at = now,
                                            updated_at = now\<rparr>
                                  in Inr (d\<lparr>events := events d @ [ev]\<rparr>, ev, warnings))
                           | _ \<Rightarrow> Inl ValidationError)))))"

section \<open>The time window of stored events\<close>

text \<open>The data model's invariant: every stored event starts before it ends.\<close>

definition start_before_end :: "db \<Rightarrow> bool" where
  "start_before_end d = (\<forall>e \<in> set (events d). start_time e < end_time e)"

section \<open>Listing events\<close>

text \<open>
  The filter \<open>Q(is_public=True) | Q(invited_users=user) | Q(organizer=user)\<close> runs over the
  events joined with their invitations: an event appears once per invited user, or once
  with no user when nobody is invited. \<open>.distinct()\<close> then removes the repeated events.
\<close>

definition join_invited :: "event \<Rightarrow> (event \<times> nat option) list" where
  "join_invited e =
     (case invited_users e of
        [] \<Rightarrow> [(e, None)]
      | uids \<Rightarrow> map (\<lambda>uid. (e, Some uid)) uids)"

definition q_filter :: "nat \<Rightarrow> event list \<Rightarrow> event list" where
  "q_filter uid evs =
     map fst
       (filter (\<lambda>(e, invited). is_public e \<or> invited = Some uid \<or> organizer e = uid)
          (concat (map join_invited evs)))"

text \<open>
  The rows that \<open>events_list_view\<close> selects, before the ordering is applied.
\<close>

definition events_list_rows :: "db \<Rightarrow> request_user \<Rightarrow> event list" where
  "events_list_rows d user =
     (case user of
        User uid \<Rightarrow> remdups (q_filter uid (events d))
      | AnonymousUser \<Rightarrow> filter is_public (events d))"

text \<open>
  The rows of \<open>EventViewSet.get_queryset\<close>; \<open>action\<close> is the view set's current action, if
  any.
\<close>

definition get_queryset_rows :: "db \<Rightarrow> request_user option \<Rightarrow> string option \<Rightarrow> event list" where
  "get_queryset_rows d request_user action =
     (if action = Some ''list'' \<or> action = None then
        (case request_user of
           Some (User uid) \<Rightarrow> remdups (q_filter uid (events d))
         | _ \<Rightarrow> filter is_public (events d))
      else events d)"

text \<open>
  \<open>.order_by('-created_at')\<close>. The query names one sort key; the database returns the
  selected rows in some order that is descending in it. \<open>order_by_created_at_desc rows xs\<close>
  says that \<open>xs\<close> is such an answer for the selected \<open>rows\<close>.
\<close>

definition order_by_created_at_desc :: "event list \<Rightarrow> event list \<Rightarrow> bool" where
  "order_by_created_at_desc rows xs =
     (mset xs = mset rows \<and> sorted_wrt (\<lambda>a b. created_at a \<ge> created_at b) xs)"

definition events_list_view :: "db \<Rightarrow> request_user \<Rightarrow> event list \<Rightarrow> bool" where
  "events_list_view d user xs = order_by_created_at_desc (events_list_rows d user) xs"

definition get_queryset :: "db \<Rightarrow> request_user option \<Rightarrow> string option \<Rightarrow> event list \<Rightarrow> bool" where
  "get_queryset d request_user action xs =
     order_by_created_at_desc (get_queryset_rows d request_user action) xs"

section \<open>Aggregation\<close>

text \<open>
  The tally loop of \<open>events_list_view\<close> and \<open>event_detail_view\<close> over the statuses of an
  event's RSVP rows. \<open>counts['Not_Going'] += 1\<close> raises \<open>KeyError\<close> on a missing key;
  \<open>counts.get(st, 0) + 1\<close> does not.
\<close>

fun tally :: "(string \<rightharpoonup> int) \<Rightarrow> string list \<Rightarrow> py_exception + (string \<rightharpoonup> int)" where
  "tally counts [] = Inr counts"
| "tally counts (st # sts) =
     (if st = ''Not Going'' then
        (case counts ''Not_Going'' of
           None \<Rightarrow> Inl KeyError
         | Some n \<Rightarrow> tally (counts(''Not_Going'' \<mapsto> n + 1)) sts)
      else tally (counts(st \<mapsto> (case counts st of None \<Rightarrow> 0 | Some n \<Rightarrow> n) + 1)) sts)"

text \<open>
  The key under which a status is counted: the stored label \<open>Not Going\<close> is counted under
  \<open>Not_Going\<close>, every other status under its own text.
\<close>

definition normalized_key :: "string \<Rightarrow> string" where
  "normalized_key st = (if st = ''Not Going'' then ''Not_Going'' else st)"

text \<open>
  \<open>rsvp_counts\<close> for the rows \<open>ev.rsvps.all()\<close> returned, in the order returned.
\<close>

definition rsvp_counts :: "rsvp list \<Rightarrow> py_exception + (string \<rightharpoonup> int)" where
  "rsvp_counts rows =
     tally [''Going'' \<mapsto> 0, ''Maybe'' \<mapsto> 0, ''Not_Going'' \<mapsto> 0] (map rsvp_status rows)"

definition event_rsvps :: "db \<Rightarrow> nat \<Rightarrow> rsvp list" where
  "event_rsvps d event_id = filter (\<lambda>r. rsvp_event r = event_id) (rsvps d)"

section \<open>Example data\<close>

text \<open>
  Three users; a private event organized by user 1 with user 3 invited, and a public
  event, both created at the same instant.
\<close>

definition example_private_event :: event where
  "example_private_event =
     \<lparr>pk = 1, title = py_text ''Board meeting'', description = [], organizer = 1, location = py_text ''HQ'',
      start_time = 100, end_time = 200, is_public = False, invited_users = [3],
      created_at = 10, updated_at = 10\<rparr>"

definition example_public_event :: event where
  "example_public_event =
     \<lparr>pk = 2, title = py_text ''Open day'', description = [], organizer = 1, location = py_text ''HQ'',
      start_time = 300, end_time = 400, is_public = True, invited_users = [],
      created_at = 10, updated_at = 10\<rparr>"

definition example_db :: db where
  "example_db =
     \<lparr>users = [(1, py_text ''alice''), (2, py_text ''bob''), (3, py_text ''carol'')],
      events = [example_private_event, example_public_event],
      rsvps = [],
      reviews = []\<rparr>"

text \<open>
  User 3 answers ``Going'' to the private event at time 5 and ``Maybe'' at time 6; the row
  and the tables after the first answer.
\<close>

definition example_requests :: "rsvp_request list" where
  "example_requests =
     [\<lparr>req_now = 5, req_user = Some (User 3), req_event = 1, req_status = Some ''Going''\<rparr>,
      \<lparr>req_now = 6, req_user = Some (User 3), req_event = 1, req_status = Some ''Maybe''\<rparr>]"

definition example_rsvp :: rsvp where
  "example_rsvp =
     \<lparr>rsvp_pk = 1, rsvp_event = 1, rsvp_user = 3, rsvp_status = ''Going'', rsvp_created_at = 5\<rparr>"

definition example_db_rsvp :: db where
  "example_db_rsvp = example_db\<lparr>rsvps := [example_rsvp]\<rparr>"

text \<open>
  An interpreter for the examples: CPython 3.11, whose Unicode database (version 14.0)
  has 65 runs of ten decimal digits beyond ASCII, each run in the order 0 to 9, and whose
  default limit for a literal is 4300 digits.
\<close>

definition decimal_digit_runs :: "nat list" where
  "decimal_digit_runs =
     [0x660, 0x6F0, 0x7C0, 0x966, 0x9E6, 0xA66, 0xAE6, 0xB66,
      0xBE6, 0xC66, 0xCE6, 0xD66, 0xDE6, 0xE50, 0xED0, 0xF20,
      0x1040, 0x1090, 0x17E0, 0x1810, 0x1946, 0x19D0, 0x1A80, 0x1A90,
      0x1B50, 0x1BB0, 0x1C40, 0x1C50, 0xA620, 0xA8D0, 0xA900, 0xA9D0,
      0xA9F0, 0xAA50, 0xABF0, 0xFF10, 0x104A0, 0x10D30, 0x11066, 0x110F0,
      0x11136, 0x111D0, 0x112F0, 0x11450, 0x114D0, 0x11650, 0x116C0, 0x11730,
      0x118E0, 0x11950, 0x11C50, 0x11D50, 0x11DA0, 0x16A60, 0x16AC0, 0x16B50,
      0x1D7CE, 0x1D7D8, 0x1D7E2, 0x1D7EC, 0x1D7F6, 0x1E140, 0x1E2F0, 0x1E950,
      0x1FBF0]"

definition example_interpreter :: interpreter where
  "example_interpreter =
     \<lparr>unicode_decimal =
        (\<lambda>c. case find (\<lambda>zero. zero \<le> c \<and> c < zero + 10) decimal_digit_runs of
               None \<Rightarrow> None
             | Some zero \<Rightarrow> Some (c - zero)),
      int_max_str_digits = 4300\<rparr>"

text \<open>
  User 3 reviews the private event with rating 3 at time 7; the row and the tables after
  that review.
\<close>

definition example_review :: review where
  "example_review =
     \<lparr>review_pk = 1, review_event = 1, review_user = 3, rating = 3, comment = py_text ''ok'',
      review_created_at = 7\<rparr>"

definition example_db_review :: db where
  "example_db_review = example_db\<lparr>reviews := [example_review]\<rparr>"

text \<open>
  Event 1 with three answers (one ``Going'', two ``Not Going'') and event 2 with one; the
  rows of event 1 as a query returns them, newest first.
\<close>

definition example_db_counts :: db where
  "example_db_counts =
     example_db
       \<lparr>rsvps :=
          [\<lparr>rsvp_pk = 1, rsvp_event = 1, rsvp_user = 1, rsvp_status = ''Going'',
             rsvp_created_at = 5\<rparr>,
           \<lparr>rsvp_pk = 2, rsvp_event = 2, rsvp_user = 2, rsvp_status = ''Maybe'',
             rsvp_created_at = 6\<rparr>,
           \<lparr>rsvp_pk = 3, rsvp_event = 1, rsvp_user = 3, rsvp_status = ''Not Going'',
             rsvp_created_at = 7\<rparr>,
           \<lparr>rsvp_pk = 4, rsvp_event = 1, rsvp_user = 2, rsvp_status = ''Not Going'',
             rsvp_created_at = 8\<rparr>]\<rparr>"

definition example_rsvp_rows :: "rsvp list" where
  "example_rsvp_rows =
     [\<lparr>rsvp_pk = 4, rsvp_event = 1, rsvp_user = 2, rsvp_status = ''Not Going'',
        rsvp_created_at = 8\<rparr>,
      \<lparr>rsvp_pk = 3, rsvp_event = 1, rsvp_user = 3, rsvp_status = ''Not Going'',
        rsvp_created_at = 7\<rparr>,
      \<lparr>rsvp_pk = 1, rsvp_event = 1, rsvp_user = 1, rsvp_status = ''Going'',
        rsvp_created_at = 5\<rparr>]"

text \<open>
  A stand-in for the date parser in examples: the text of a number is read as that
  instant, anything else is not a datetime.
\<close>

definition example_parse_datetime :: "py_str \<Rightarrow> error + datetime option" where
  "example_parse_datetime v = Inr (map_option Aware (unsigned_value v))"

definition example_event_data :: event_data where
  "example_event_data =
     \<lparr>data_title = Some (py_text ''Launch''), data_description = None, data_location = Some (py_text ''Lab''),
      data_start_time = Some 1000, data_end_time = Some 900, data_is_public = None,
      data_invited_users = None\<rparr>"

definition example_event_form :: event_form where
  "example_event_form =
     \<lparr>post_title = Some (py_text ''Launch''), post_description = None, post_location = Some (py_text ''Lab''),
      post_start_time = Some (py_text ''1000''),
      post_end_time = Some (py_text ''900''), post_is_public = None,
      post_invited_users = None\<rparr>"

section \<open>Visibility\<close>

lemma user_in_iff: "user_in v uids = (\<exists>uid. v = User uid \<and> uid \<in> set uids)"
  by (induction uids) (cases v; auto)+

lemma user_in_User [simp]: "user_in (User uid) uids = (uid \<in> set uids)"
  by (simp add: user_in_iff)

lemma has_object_permission_event:
  "has_object_permission (Some v) (event_obj e) = Inr (can_view_spec v e)"
  by (cases v)
     (auto simp: has_object_permission_def event_obj_def getattr_is_public_def
        getattr_organizer_def invited_membership_def can_view_spec_def)

lemma event_detail_allowed_spec: "event_detail_allowed v e = can_view_spec v e"
  by (cases v) (auto simp: event_detail_allowed_def can_view_spec_def)

text \<open>
  C1. For every viewer and event, both implementations of the visibility rule (the API
  permission class applied to an event, and the check inside the detail page) compute the
  specification's predicate: true on a public event for every viewer, anonymous included;
  on a private event true exactly for an authenticated viewer who is the organizer or is
  invited, hence false for an authenticated viewer who is neither.
\<close>

theorem can_view_rule:
  "has_object_permission (Some v) (event_obj e) = Inr (can_view_spec v e)
   \<and> event_detail_allowed v e = can_view_spec v e
   \<and> (is_public e \<longrightarrow>
        has_object_permission caller (event_obj e) = Inr True \<and> event_detail_allowed v e)
   \<and> (\<not> is_public e \<and> uid \<noteq> organizer e \<and> uid \<notin> set (invited_users e) \<longrightarrow>
        has_object_permission (Some (User uid)) (event_obj e) = Inr False
        \<and> \<not> event_detail_allowed (User uid) e)"
proof -
  have public: "has_object_permission caller (event_obj e) = Inr True" if "is_public e"
    using that by (simp add: has_object_permission_def event_obj_def getattr_is_public_def)
  have stranger: "\<not> can_view_spec (User uid) e"
    if "\<not> is_public e" "uid \<noteq> organizer e" "uid \<notin> set (invited_users e)"
    using that by (auto simp: can_view_spec_def)
  show ?thesis
    using public stranger has_object_permission_event event_detail_allowed_spec
    by (auto simp: can_view_spec_def)
qed

theorem can_view_rule_witness:
  "\<not> is_public example_private_event
   \<and> 2 \<noteq> organizer example_private_event
   \<and> 2 \<notin> set (invited_users example_private_event)
   \<and> has_object_permission (Some (User 2)) (event_obj example_private_event) = Inr False
   \<and> \<not> event_detail_allowed (User 2) example_private_event
   \<and> event_detail_allowed (User 3) example_private_event
   \<and> is_public example_public_event
   \<and> has_object_permission (Some AnonymousUser) (event_obj example_public_event) = Inr True
   \<and> event_detail_allowed AnonymousUser example_public_event"
  using can_view_rule [of "User 2" example_private_event None 2]
    can_view_rule [of "User 3" example_private_event None 2]
    can_view_rule [of AnonymousUser example_public_event "Some AnonymousUser" 0]
  by (simp add: example_private_event_def example_public_event_def can_view_spec_def)

lemma getattr_is_public_Inl:
  "getattr_is_public obj = Inl exn \<longleftrightarrow> obj_is_public obj = Inl exn \<and> exn \<noteq> AttributeError"
  by (cases "obj_is_public obj"; cases exn)
     (auto simp: getattr_is_public_def split: py_exception.splits)

lemma getattr_organizer_Inl:
  "getattr_organizer obj = Inl exn \<longleftrightarrow> obj_organizer obj = Inl exn \<and> exn \<noteq> AttributeError"
  by (cases "obj_organizer obj"; cases exn)
     (auto simp: getattr_organizer_def split: py_exception.splits)

lemma has_object_permission_private:
  assumes "getattr_is_public obj = Inr False"
  shows "has_object_permission None obj = Inr False"
    and "has_object_permission (Some AnonymousUser) obj = Inr False"
    and "has_object_permission (Some (User uid)) obj =
           (case getattr_organizer obj of
              Inl exn \<Rightarrow> Inl exn
            | Inr organizer_opt \<Rightarrow>
                if organizer_opt = Some uid then Inr True
                else (case invited_membership (User uid) obj of
                        Inl exn \<Rightarrow> Inr False
                      | Inr b \<Rightarrow> Inr b))"
  using assms by (auto simp: has_object_permission_def split: sum.splits option.splits)

text \<open>
  C10 (amended). The permission method is not free of exceptions. One leaves it exactly
  when it is something other than \<open>AttributeError\<close> and is raised either by the read of
  \<open>is_public\<close>, or, on an object found not public and for an authenticated caller, by the
  read of the organizer. In every other case the method returns a truth value. On an
  object found not public it answers false for a caller who is missing or anonymous
  whatever the read of the organizer and the invited-users lookup would do, failures
  included, so the denial depends on neither; and when the read of the organizer does not
  raise, for an authenticated caller who is not the organizer a lookup that raises gives
  false.
\<close>

theorem has_object_permission_raises:
  "(has_object_permission caller obj = Inl exn \<longleftrightarrow>
      exn \<noteq> AttributeError
      \<and> (obj_is_public obj = Inl exn
          \<or> (getattr_is_public obj = Inr False \<and> (\<exists>uid. caller = Some (User uid))
              \<and> obj_organizer obj = Inl exn)))
   \<and> ((caller = None \<or> caller = Some AnonymousUser) \<and> getattr_is_public obj = Inr False \<longrightarrow>
        has_object_permission caller
          (obj\<lparr>obj_organizer := organizer_read, obj_invited_users := lookup\<rparr>) = Inr False)
   \<and> (obj_invited_users obj = Inl lookup_exn \<and> getattr_is_public obj = Inr False
        \<and> getattr_organizer obj = Inr organizer_opt \<and> organizer_opt \<noteq> Some uid \<longrightarrow>
        has_object_permission (Some (User uid)) obj = Inr False)"
proof (intro conjI impI)
  show "has_object_permission caller obj = Inl exn \<longleftrightarrow>
          exn \<noteq> AttributeError
          \<and> (obj_is_public obj = Inl exn
              \<or> (getattr_is_public obj = Inr False \<and> (\<exists>uid. caller = Some (User uid))
                  \<and> obj_organizer obj = Inl exn))"
  proof (cases "getattr_is_public obj")
    case (Inl raised)
    then have "has_object_permission caller obj = Inl raised"
      by (simp add: has_object_permission_def)
    with Inl show ?thesis
      using getattr_is_public_Inl [of obj raised] getattr_is_public_Inl [of obj exn] by auto
  next
    case (Inr public)
    then have no_raise: "obj_is_public obj \<noteq> Inl exn \<or> exn = AttributeError"
      using getattr_is_public_Inl [of obj exn] by auto
    show ?thesis
    proof (cases public)
      case True
      with Inr have "has_object_permission caller obj = Inr True"
        by (simp add: has_object_permission_def)
      with Inr True no_raise show ?thesis by auto
    next
      case False
      with Inr have priv: "getattr_is_public obj = Inr False" by simp
      show ?thesis
      proof (cases caller)
        case None
        with priv no_raise show ?thesis
          by (auto simp: has_object_permission_private(1))
      next
        case (Some user)
        show ?thesis
        proof (cases user)
          case AnonymousUser
          with Some priv no_raise show ?thesis
            by (auto simp: has_object_permission_private(2))
        next
          case (User uid)
          show ?thesis
            unfolding Some User has_object_permission_private(3) [OF priv]
            using priv no_raise getattr_organizer_Inl [of obj exn]
            by (auto split: sum.splits)
        qed
      qed
    qed
  qed
next
  assume a: "(caller = None \<or> caller = Some AnonymousUser) \<and> getattr_is_public obj = Inr False"
  let ?obj = "obj\<lparr>obj_organizer := organizer_read, obj_invited_users := lookup\<rparr>"
  from a have "getattr_is_public ?obj = Inr False"
    by (simp add: getattr_is_public_def)
  with a show "has_object_permission caller ?obj = Inr False"
    using has_object_permission_private(1,2) [of ?obj] by auto
next
  assume "obj_invited_users obj = Inl lookup_exn \<and> getattr_is_public obj = Inr False
          \<and> getattr_organizer obj = Inr organizer_opt \<and> organizer_opt \<noteq> Some uid"
  then show "has_object_permission (Some (User uid)) obj = Inr False"
    by (simp add: has_object_permission_private(3) invited_membership_def)
qed

theorem has_object_permission_raises_witness:
  "getattr_is_public (event_obj example_private_event) = Inr False
   \<and> has_object_permission (Some AnonymousUser)
       ((event_obj example_private_event)
          \<lparr>obj_organizer := Inl DatabaseError, obj_invited_users := Inl DatabaseError\<rparr>)
       = Inr False
   \<and> has_object_permission None
       ((event_obj example_private_event)
          \<lparr>obj_organizer := Inl KeyError, obj_invited_users := Inr [3]\<rparr>) = Inr False
   \<and> getattr_organizer
         ((event_obj example_private_event)\<lparr>obj_invited_users := Inl AttributeError\<rparr>)
       = Inr (Some 1)
   \<and> has_object_permission (Some (User 2))
       ((event_obj example_private_event)\<lparr>obj_invited_users := Inl AttributeError\<rparr>) = Inr False
   \<and> getattr_organizer
         ((event_obj example_private_event)
            \<lparr>obj_organizer := Inl AttributeError, obj_invited_users := Inl KeyError\<rparr>)
       = Inr None
   \<and> has_object_permission (Some (User 1))
       ((event_obj example_private_event)
          \<lparr>obj_organizer := Inl AttributeError, obj_invited_users := Inl KeyError\<rparr>) = Inr False
   \<and> has_object_permission (Some (User 2))
       ((event_obj example_private_event)\<lparr>obj_organizer := Inl KeyError\<rparr>) = Inl KeyError
   \<and> has_object_permission (Some (User 2)) (event_obj example_private_event) \<noteq> Inl KeyError
   \<and> has_object_permission (Some (User 2))
       ((event_obj example_private_event)\<lparr>obj_is_public := Inl AttributeError\<rparr>)
      \<noteq> Inl AttributeError"
  using
    has_object_permission_raises
      [where caller = "Some AnonymousUser" and obj = "event_obj example_private_event"
         and exn = KeyError and organizer_read = "Inl DatabaseError"
         and lookup = "Inl DatabaseError" and lookup_exn = AttributeError
         and organizer_opt = None and uid = 2]
    has_object_permission_raises
      [where caller = None and obj = "event_obj example_private_event"
         and exn = KeyError and organizer_read = "Inl KeyError"
         and lookup = "Inr [3]" and lookup_exn = AttributeError
         and organizer_opt = None and uid = 2]
    has_object_permission_raises
      [where caller = None
         and obj = "(event_obj example_private_event)\<lparr>obj_invited_users := Inl AttributeError\<rparr>"
         and exn = KeyError and organizer_read = "Inr 1"
         and lookup = "Inr []" and lookup_exn = AttributeError
         and organizer_opt = "Some 1" and uid = 2]
    has_object_permission_raises
      [where caller = None
         and obj = "(event_obj example_private_event)
             \<lparr>obj_organizer := Inl AttributeError, obj_invited_users := Inl KeyError\<rparr>"
         and exn = KeyError and organizer_read = "Inr 1"
         and lookup = "Inr []" and lookup_exn = KeyError
         and organizer_opt = None and uid = 1]
    has_object_permission_raises
      [where caller = "Some (User 2)"
         and obj = "(event_obj example_private_event)\<lparr>obj_organizer := Inl KeyError\<rparr>"
         and exn = KeyError and organizer_read = "Inr 1"
         and lookup = "Inr []" and lookup_exn = AttributeError
         and organizer_opt = None and uid = 2]
    has_object_permission_raises
      [where caller = "Some (User 2)" and obj = "event_obj example_private_event"
         and exn = KeyError and organizer_read = "Inr 1"
         and lookup = "Inr []" and lookup_exn = AttributeError
         and organizer_opt = None and uid = 2]
    has_object_permission_raises
      [where caller = "Some (User 2)"
         and obj = "(event_obj example_private_event)\<lparr>obj_is_public := Inl AttributeError\<rparr>"
         and exn = AttributeError and organizer_read = "Inr 1"
         and lookup = "Inr []" and lookup_exn = AttributeError
         and organizer_opt = None and uid = 2]
  by (simp add: example_private_event_def event_obj_def getattr_is_public_def
      getattr_organizer_def)

text \<open>
  The original claim of C10 fails on a private event whose organizer cannot be read
  because the database is unavailable: for the authenticated user 2 the exception of the
  read leaves the method.
\<close>

theorem has_object_permission_raises_counterexample:
  "has_object_permission (Some (User 2))
     ((event_obj example_private_event)\<lparr>obj_organizer := Inl DatabaseError\<rparr>)
   = Inl DatabaseError"
  by (simp add: has_object_permission_def getattr_is_public_def getattr_organizer_def
      event_obj_def example_private_event_def)

section \<open>Tables and fresh keys\<close>

lemmas example_event_defs =
  example_db_def example_private_event_def example_public_event_def

lemma le_fold_max: "x \<in> set xs \<Longrightarrow> x \<le> fold max xs (a::nat)"
proof (induction xs arbitrary: a)
  case Nil then show ?case by simp
next
  case (Cons y ys)
  have mono: "b \<le> fold max ys b" for b :: nat
    by (induction ys arbitrary: b) (auto intro: order_trans [OF max.cobounded2])
  show ?case
  proof (cases "x = y")
    case True
    then show ?thesis using mono [of "max y a"] by simp
  next
    case False
    with Cons show ?thesis by simp
  qed
qed

lemma next_pk_fresh: "next_pk pks \<notin> set pks"
  using le_fold_max [of "next_pk pks" pks 0] by (auto simp: next_pk_def)

lemma filter_key_distinct:
  "distinct (map f xs) \<Longrightarrow> length (filter (\<lambda>x. f x = k) xs) \<le> 1"
  by (induction xs) (auto simp: filter_empty_conv image_iff)

lemma get_event_pk: "get_event d event_id = Some e \<Longrightarrow> pk e = event_id \<and> e \<in> set (events d)"
  by (auto simp: get_event_def find_Some_iff)

section \<open>The RSVP table under \<open>update_or_create\<close>\<close>

lemma rsvps_of_mem:
  "r \<in> set (rsvps_of rows e u) \<longleftrightarrow> r \<in> set rows \<and> rsvp_event r = e \<and> rsvp_user r = u"
  by (auto simp: rsvps_of_def)

lemma rsvps_of_single:
  assumes "rsvps_of rows e u = [found]"
  shows "found \<in> set rows" "rsvp_event found = e" "rsvp_user found = u"
    "\<forall>r \<in> set rows. rsvp_event r = e \<and> rsvp_user r = u \<longrightarrow> r = found"
proof -
  have "set (rsvps_of rows e u) = {found}" using assms by simp
  then have *: "\<And>r. (r \<in> set rows \<and> rsvp_event r = e \<and> rsvp_user r = u) = (r = found)"
    unfolding rsvps_of_mem [symmetric] by simp
  from * [of found] show "found \<in> set rows" "rsvp_event found = e" "rsvp_user found = u"
    by simp_all
  from * show "\<forall>r \<in> set rows. rsvp_event r = e \<and> rsvp_user r = u \<longrightarrow> r = found"
    by blast
qed

lemma rsvps_of_ok: "rsvp_table_ok rows \<Longrightarrow> length (rsvps_of rows e u) \<le> 1"
  using filter_key_distinct [of "\<lambda>r. (rsvp_event r, rsvp_user r)" rows "(e, u)"]
  by (simp add: rsvp_table_ok_def rsvps_of_def)

lemma rsvps_of_cases:
  assumes "rsvp_table_ok rows"
  obtains (absent) "rsvps_of rows e u = []" | (present) found where "rsvps_of rows e u = [found]"
proof (cases "rsvps_of rows e u")
  case Nil
  then show ?thesis by (rule absent)
next
  case (Cons found rest)
  with rsvps_of_ok [OF assms, of e u] have "rest = []" by simp
  with Cons show ?thesis by (simp add: present)
qed

lemma rsvp_pk_eq_iff:
  assumes "distinct (map rsvp_pk rows)" "found \<in> set rows" "r \<in> set rows"
  shows "rsvp_pk r = rsvp_pk found \<longleftrightarrow> r = found"
  using assms by (auto simp: distinct_map dest: inj_onD)

lemma rsvp_save_found:
  assumes f: "rsvps_of rows e u = [found]"
  shows "rsvp_save rows (found\<lparr>rsvp_status := s\<rparr>) =
      Inr (map (\<lambda>r. if rsvp_pk r = rsvp_pk found then found\<lparr>rsvp_status := s\<rparr> else r) rows)"
proof -
  note single = rsvps_of_single [OF f]
  have "\<not> (\<exists>r \<in> set rows. rsvp_pk r \<noteq> rsvp_pk found \<and> rsvp_event r = e \<and> rsvp_user r = u)"
    using single(4) by blast
  then show ?thesis
    by (simp add: rsvp_save_def single(2,3))
qed

lemma update_or_create_absent:
  "rsvps_of rows e u = [] \<Longrightarrow>
   rsvp_update_or_create rows now e u s =
     Inr (rows @ [\<lparr>rsvp_pk = next_pk (map rsvp_pk rows), rsvp_event = e, rsvp_user = u,
                    rsvp_status = s, rsvp_created_at = now\<rparr>],
          \<lparr>rsvp_pk = next_pk (map rsvp_pk rows), rsvp_event = e, rsvp_user = u,
            rsvp_status = s, rsvp_created_at = now\<rparr>, True)"
  by (simp add: rsvp_update_or_create_def Let_def)

lemma update_or_create_present:
  assumes ok: "rsvp_table_ok rows" and f: "rsvps_of rows e u = [found]"
  shows "rsvp_update_or_create rows now e u s =
     Inr (map (\<lambda>r. if r = found then found\<lparr>rsvp_status := s\<rparr> else r) rows,
          found\<lparr>rsvp_status := s\<rparr>, False)"
proof -
  have mem: "found \<in> set rows" by (rule rsvps_of_single(1) [OF f])
  have "distinct (map rsvp_pk rows)" using ok by (simp add: rsvp_table_ok_def)
  then have "map (\<lambda>r. if rsvp_pk r = rsvp_pk found then found\<lparr>rsvp_status := s\<rparr> else r) rows =
        map (\<lambda>r. if r = found then found\<lparr>rsvp_status := s\<rparr> else r) rows"
    using rsvp_pk_eq_iff [OF _ mem] by (intro map_cong) simp_all
  with rsvp_save_found [OF f, of s] show ?thesis
    by (simp add: rsvp_update_or_create_def f Let_def)
qed

lemma rsvp_table_ok_append:
  assumes "rsvp_table_ok rows" "rsvps_of rows e u = []"
  shows "rsvp_table_ok (rows @ [\<lparr>rsvp_pk = next_pk (map rsvp_pk rows), rsvp_event = e,
            rsvp_user = u, rsvp_status = s, rsvp_created_at = now\<rparr>])"
  using assms next_pk_fresh [of "map rsvp_pk rows"]
  by (auto simp: rsvp_table_ok_def rsvps_of_def filter_empty_conv)

lemma rsvp_table_ok_replace:
  assumes "rsvp_table_ok rows"
  shows "rsvp_table_ok (map (\<lambda>r. if r = found then found\<lparr>rsvp_status := s\<rparr> else r) rows)"
proof -
  have eq1: "map rsvp_pk (map (\<lambda>r. if r = found then found\<lparr>rsvp_status := s\<rparr> else r) rows)
      = map rsvp_pk rows"
    by (induction rows) auto
  have eq2: "map (\<lambda>r. (rsvp_event r, rsvp_user r))
        (map (\<lambda>r. if r = found then found\<lparr>rsvp_status := s\<rparr> else r) rows)
      = map (\<lambda>r. (rsvp_event r, rsvp_user r)) rows"
    by (induction rows) auto
  show ?thesis
    unfolding rsvp_table_ok_def eq1 eq2 using assms unfolding rsvp_table_ok_def .
qed

lemma rsvps_of_replace:
  "rsvps_of (map (\<lambda>r. if r = found then found\<lparr>rsvp_status := s\<rparr> else r) rows) e u
   = map (\<lambda>r. if r = found then found\<lparr>rsvp_status := s\<rparr> else r) (rsvps_of rows e u)"
  by (induction rows) (auto simp: rsvps_of_def)

lemma rsvps_of_append:
  "rsvps_of (rows @ [obj]) e u =
     rsvps_of rows e u @ (if rsvp_event obj = e \<and> rsvp_user obj = u then [obj] else [])"
  by (simp add: rsvps_of_def)

text \<open>What one successful upsert does to the table, pair by pair.\<close>

lemma update_or_create_effect:
  assumes ok: "rsvp_table_ok rows"
    and res: "rsvp_update_or_create rows now e u s = Inr (rows', obj, created)"
  shows "rsvp_table_ok rows'"
    and "rsvps_of rows' e u = [obj]"
    and "rsvp_event obj = e" "rsvp_user obj = u" "rsvp_status obj = s"
    and "e' \<noteq> e \<or> u' \<noteq> u \<Longrightarrow> rsvps_of rows' e' u' = rsvps_of rows e' u'"
    and "rsvps_of rows e u = [] \<Longrightarrow>
           created \<and> rsvp_created_at obj = now \<and> rows' = rows @ [obj]"
    and "rsvps_of rows e u = found # rest \<Longrightarrow>
           \<not> created \<and> obj = found\<lparr>rsvp_status := s\<rparr>
           \<and> rows' = map (\<lambda>r. if r = found then obj else r) rows"
proof -
  consider (absent) "rsvps_of rows e u = []" | (present) f where "rsvps_of rows e u = [f]"
    by (rule rsvps_of_cases [OF ok])
  then have
    "rsvp_table_ok rows' \<and> rsvps_of rows' e u = [obj]
     \<and> rsvp_event obj = e \<and> rsvp_user obj = u \<and> rsvp_status obj = s
     \<and> (e' \<noteq> e \<or> u' \<noteq> u \<longrightarrow> rsvps_of rows' e' u' = rsvps_of rows e' u')
     \<and> (rsvps_of rows e u = [] \<longrightarrow>
           created \<and> rsvp_created_at obj = now \<and> rows' = rows @ [obj])
     \<and> (rsvps_of rows e u = found # rest \<longrightarrow>
           \<not> created \<and> obj = found\<lparr>rsvp_status := s\<rparr>
           \<and> rows' = map (\<lambda>r. if r = found then obj else r) rows)"
  proof cases
    case absent
    from res update_or_create_absent [OF absent, of now s]
    have r: "rows' = rows @ [obj]" "created"
      "obj = \<lparr>rsvp_pk = next_pk (map rsvp_pk rows), rsvp_event = e, rsvp_user = u,
              rsvp_status = s, rsvp_created_at = now\<rparr>"
      by auto
    have "rsvp_table_ok rows'"
      using rsvp_table_ok_append [OF ok absent, of s now] r by simp
    moreover have "rsvps_of rows' e u = [obj]"
      using absent r by (simp add: rsvps_of_append)
    moreover have "e' \<noteq> e \<or> u' \<noteq> u \<longrightarrow> rsvps_of rows' e' u' = rsvps_of rows e' u'"
      using r by (auto simp: rsvps_of_append)
    ultimately show ?thesis using r absent by simp
  next
    case present
    from res update_or_create_present [OF ok present, of now s]
    have r: "rows' = map (\<lambda>r. if r = f then f\<lparr>rsvp_status := s\<rparr> else r) rows"
      "\<not> created" "obj = f\<lparr>rsvp_status := s\<rparr>"
      by auto
    note single = rsvps_of_single [OF present]
    have "rsvp_table_ok rows'"
      using rsvp_table_ok_replace [OF ok] r by simp
    moreover have "rsvps_of rows' e u = [obj]"
      using r present by (simp add: rsvps_of_replace)
    moreover have "rsvps_of rows' e' u' = rsvps_of rows e' u'" if "e' \<noteq> e \<or> u' \<noteq> u"
    proof -
      have "f \<notin> set (rsvps_of rows e' u')"
        using that single(2,3) by (auto simp: rsvps_of_mem)
      then have "map (\<lambda>r. if r = f then f\<lparr>rsvp_status := s\<rparr> else r) (rsvps_of rows e' u')
          = rsvps_of rows e' u'"
        by (intro map_idI) auto
      then show ?thesis using r by (simp add: rsvps_of_replace)
    qed
    ultimately show ?thesis using r present single(2,3) by auto
  qed
  then show "rsvp_table_ok rows'"
    and "rsvps_of rows' e u = [obj]"
    and "rsvp_event obj = e" "rsvp_user obj = u" "rsvp_status obj = s"
    and "e' \<noteq> e \<or> u' \<noteq> u \<Longrightarrow> rsvps_of rows' e' u' = rsvps_of rows e' u'"
    and "rsvps_of rows e u = [] \<Longrightarrow>
           created \<and> rsvp_created_at obj = now \<and> rows' = rows @ [obj]"
    and "rsvps_of rows e u = found # rest \<Longrightarrow>
           \<not> created \<and> obj = found\<lparr>rsvp_status := s\<rparr>
           \<and> rows' = map (\<lambda>r. if r = found then obj else r) rows"
    by blast+
qed

lemma update_or_create_succeeds:
  assumes "rsvp_table_ok rows"
  shows "\<exists>rows' obj created. rsvp_update_or_create rows now e u s = Inr (rows', obj, created)"
  using rsvps_of_cases [OF assms, of e u]
    update_or_create_absent [of rows e u now s] update_or_create_present [OF assms, of e u _ now s]
  by metis

lemma serializer_status_Inr:
  "serializer_status st = Inr s \<longleftrightarrow> st = Some s \<and> s \<in> set (map fst STATUS_CHOICES)"
  by (cases st) (auto simp: serializer_status_def validate_status_def)

section \<open>The RSVP endpoint\<close>

lemma rsvp_Inr:
  assumes res: "rsvp d now caller e st = Inr (d', obj, code)"
  shows "\<exists>uid s ev rows created.
           caller = Some (User uid) \<and> st = Some s \<and> s \<in> set (map fst STATUS_CHOICES)
           \<and> get_event d e = Some ev
           \<and> rsvp_update_or_create (rsvps d) now e uid s = Inr (rows, obj, created)
           \<and> d' = d\<lparr>rsvps := rows\<rparr>
           \<and> code = (if created then HTTP_201_CREATED else HTTP_200_OK)"
proof (cases caller)
  case None
  with res show ?thesis by (simp add: rsvp_def)
next
  case (Some user)
  show ?thesis
  proof (cases user)
    case AnonymousUser
    with res Some show ?thesis by (simp add: rsvp_def)
  next
    case (User uid)
    note c = Some User
    show ?thesis
    proof (cases "get_event d e")
      case None
      with res c show ?thesis by (simp add: rsvp_def)
    next
      case (Some ev)
      note ev = Some
      have pk: "pk ev = e" using get_event_pk [OF ev] by simp
      show ?thesis
      proof (cases "serializer_status st")
        case (Inl err)
        with res c ev show ?thesis by (simp add: rsvp_def split: if_splits)
      next
        case (Inr s)
        then have st: "st = Some s" "s \<in> set (map fst STATUS_CHOICES)"
          by (simp_all add: serializer_status_Inr)
        show ?thesis
        proof (cases "rsvp_update_or_create (rsvps d) now e uid s")
          case (Inl err)
          with res c ev Inr pk show ?thesis by (simp add: rsvp_def split: if_splits)
        next
          case uoc: (Inr triple)
          obtain rows obj' created where t: "triple = (rows, obj', created)"
            by (cases triple) auto
          from res c ev Inr pk uoc t
          have "d' = d\<lparr>rsvps := rows\<rparr>" "obj' = obj"
            "code = (if created then HTTP_201_CREATED else HTTP_200_OK)"
            by (simp_all add: rsvp_def split: if_splits)
          with c ev st uoc t show ?thesis by simp
        qed
      qed
    qed
  qed
qed

lemma rsvp_step_cases:
  obtains (failed) "rsvp_step d q = d"
      "\<exists>err. rsvp d (req_now q) (req_user q) (req_event q) (req_status q) = Inl err"
    | (served) obj code where
      "rsvp d (req_now q) (req_user q) (req_event q) (req_status q) = Inr (rsvp_step d q, obj, code)"
  by (cases "rsvp d (req_now q) (req_user q) (req_event q) (req_status q)")
     (auto simp: rsvp_step_def)

lemma rsvp_effect:
  assumes ok: "rsvp_table_ok (rsvps d)"
    and res: "rsvp d now caller e st = Inr (d', obj, code)"
  shows "rsvp_table_ok (rsvps d')"
    and "caller = Some (User (rsvp_user obj))" "rsvp_event obj = e" "st = Some (rsvp_status obj)"
    and "rsvps_of (rsvps d') e (rsvp_user obj) = [obj]"
    and "e' \<noteq> e \<or> u' \<noteq> rsvp_user obj \<Longrightarrow> rsvps_of (rsvps d') e' u' = rsvps_of (rsvps d) e' u'"
    and "rsvps_of (rsvps d) e (rsvp_user obj) = [] \<Longrightarrow>
           code = HTTP_201_CREATED \<and> rsvp_created_at obj = now \<and> rsvps d' = rsvps d @ [obj]"
    and "rsvps_of (rsvps d) e (rsvp_user obj) = found # rest \<Longrightarrow>
           code = HTTP_200_OK \<and> obj = found\<lparr>rsvp_status := rsvp_status obj\<rparr>
           \<and> rsvps d' = map (\<lambda>r. if r = found then obj else r) (rsvps d)"
proof -
  from rsvp_Inr [OF res] obtain uid s ev rows created where
    c: "caller = Some (User uid)" "st = Some s"
    and uoc: "rsvp_update_or_create (rsvps d) now e uid s = Inr (rows, obj, created)"
    and d': "d' = d\<lparr>rsvps := rows\<rparr>"
    and code: "code = (if created then HTTP_201_CREATED else HTTP_200_OK)"
    by blast
  note eff = update_or_create_effect [OF ok uoc]
  have rows: "rsvps d' = rows" using d' by simp
  show "rsvp_table_ok (rsvps d')" using eff(1) rows by simp
  show "caller = Some (User (rsvp_user obj))" using c eff(4) by simp
  show "rsvp_event obj = e" by (rule eff(3))
  show "st = Some (rsvp_status obj)" using c eff(5) by simp
  show "rsvps_of (rsvps d') e (rsvp_user obj) = [obj]" using eff(2,4) rows by simp
  show "rsvps_of (rsvps d') e' u' = rsvps_of (rsvps d) e' u'" if "e' \<noteq> e \<or> u' \<noteq> rsvp_user obj"
    using eff(6) [of e' u'] that eff(4) rows by simp
  show "code = HTTP_201_CREATED \<and> rsvp_created_at obj = now \<and> rsvps d' = rsvps d @ [obj]"
    if "rsvps_of (rsvps d) e (rsvp_user obj) = []"
    using eff(7) that eff(4) rows code by simp
  show "code = HTTP_200_OK \<and> obj = found\<lparr>rsvp_status := rsvp_status obj\<rparr>
           \<and> rsvps d' = map (\<lambda>r. if r = found then obj else r) (rsvps d)"
    if "rsvps_of (rsvps d) e (rsvp_user obj) = found # rest"
    using eff(8) [of found rest] that eff(4,5) rows code by simp
qed

lemma rsvp_step_ok: "rsvp_table_ok (rsvps d) \<Longrightarrow> rsvp_table_ok (rsvps (rsvp_step d q))"
  by (cases rule: rsvp_step_cases [of d q]) (auto dest: rsvp_effect(1))

lemma rsvp_run_ok: "rsvp_table_ok (rsvps d) \<Longrightarrow> rsvp_table_ok (rsvps (rsvp_run d qs))"
  by (induction qs arbitrary: d) (auto intro: rsvp_step_ok)

lemma rsvp_run_latest:
  assumes "rsvp_table_ok (rsvps d)"
  shows "case latest_rsvp d qs e u of
           None \<Rightarrow> rsvps_of (rsvps (rsvp_run d qs)) e u = rsvps_of (rsvps d) e u
         | Some s \<Rightarrow> map rsvp_status (rsvps_of (rsvps (rsvp_run d qs)) e u) = [s]"
  using assms
proof (induction qs arbitrary: d)
  case Nil
  then show ?case by simp
next
  case (Cons q qs)
  let ?d1 = "rsvp_step d q"
  have ok1: "rsvp_table_ok (rsvps ?d1)" by (rule rsvp_step_ok [OF Cons.prems])
  note IH = Cons.IH [OF ok1]
  show ?case
  proof (cases "latest_rsvp ?d1 qs e u")
    case (Some s)
    with IH show ?thesis by simp
  next
    case None
    with IH have same: "rsvps_of (rsvps (rsvp_run ?d1 qs)) e u = rsvps_of (rsvps ?d1) e u"
      by simp
    show ?thesis
    proof (cases rule: rsvp_step_cases [of d q])
      case failed
      then show ?thesis using None same by auto
    next
      case (served obj code)
      note eff = rsvp_effect [OF Cons.prems served]
      show ?thesis
      proof (cases "req_event q = e \<and> req_user q = Some (User u)")
        case True
        with eff(2) have u: "rsvp_user obj = u" by simp
        from True eff(5) u have "rsvps_of (rsvps ?d1) e u = [obj]" by simp
        then show ?thesis using None same served True eff(4) by simp
      next
        case False
        with eff(2) have "e \<noteq> req_event q \<or> u \<noteq> rsvp_user obj" by auto
        from eff(6) [OF this] have "rsvps_of (rsvps ?d1) e u = rsvps_of (rsvps d) e u" .
        with same have "rsvps_of (rsvps (rsvp_run ?d1 qs)) e u = rsvps_of (rsvps d) e u" by simp
        moreover have "latest_rsvp d (q # qs) e u = None"
          using None served False by auto
        ultimately show ?thesis by simp
      qed
    qed
  qed
qed

text \<open>
  C2. Served from a table that satisfies the database's uniqueness constraints, any
  sequence of RSVP requests leaves a table that satisfies them, so each (event, user) pair
  has at most one row; when the pair has a successful request in the sequence, its row
  carries the status of the most recent one. A single successful request returns the row of
  the caller for the event with the status sent: when the pair had no row, the response is
  201 and the table gains that row, created at the time of the request; when it had one,
  the response is 200, the row returned is the old row with only its status replaced, and
  no other row changes.
\<close>

theorem set_rsvp_upsert:
  assumes "rsvp_table_ok (rsvps d)"
  shows "rsvp_table_ok (rsvps (rsvp_run d qs))
    \<and> length (rsvps_of (rsvps (rsvp_run d qs)) event_id user_id) \<le> 1
    \<and> (latest_rsvp d qs event_id user_id = Some s \<longrightarrow>
         map rsvp_status (rsvps_of (rsvps (rsvp_run d qs)) event_id user_id) = [s])
    \<and> (rsvp d now caller e st = Inr (d', obj, code) \<longrightarrow>
         caller = Some (User (rsvp_user obj)) \<and> rsvp_event obj = e
         \<and> st = Some (rsvp_status obj)
         \<and> rsvps_of (rsvps d') e (rsvp_user obj) = [obj]
         \<and> (case rsvps_of (rsvps d) e (rsvp_user obj) of
               [] \<Rightarrow> code = HTTP_201_CREATED \<and> rsvp_created_at obj = now
                     \<and> rsvps d' = rsvps d @ [obj]
             | found # rest \<Rightarrow>
                 code = HTTP_200_OK \<and> obj = found\<lparr>rsvp_status := rsvp_status obj\<rparr>
                 \<and> rsvps d' = map (\<lambda>r. if r = found then obj else r) (rsvps d)))"
proof (intro conjI impI)
  show ok: "rsvp_table_ok (rsvps (rsvp_run d qs))" by (rule rsvp_run_ok [OF assms])
  show "length (rsvps_of (rsvps (rsvp_run d qs)) event_id user_id) \<le> 1"
    by (rule rsvps_of_ok [OF ok])
  show "map rsvp_status (rsvps_of (rsvps (rsvp_run d qs)) event_id user_id) = [s]"
    if "latest_rsvp d qs event_id user_id = Some s"
    using rsvp_run_latest [OF assms, of qs event_id user_id] that by simp
next
  assume res: "rsvp d now caller e st = Inr (d', obj, code)"
  note eff = rsvp_effect [OF assms res]
  show "caller = Some (User (rsvp_user obj))" by (rule eff(2))
  show "rsvp_event obj = e" by (rule eff(3))
  show "st = Some (rsvp_status obj)" by (rule eff(4))
  show "rsvps_of (rsvps d') e (rsvp_user obj) = [obj]" by (rule eff(5))
  show "case rsvps_of (rsvps d) e (rsvp_user obj) of
               [] \<Rightarrow> code = HTTP_201_CREATED \<and> rsvp_created_at obj = now
                     \<and> rsvps d' = rsvps d @ [obj]
             | found # rest \<Rightarrow>
                 code = HTTP_200_OK \<and> obj = found\<lparr>rsvp_status := rsvp_status obj\<rparr>
                 \<and> rsvps d' = map (\<lambda>r. if r = found then obj else r) (rsvps d)"
    using eff(7) eff(8) by (cases "rsvps_of (rsvps d) e (rsvp_user obj)") auto
qed


lemmas example_rsvp_defs =
  example_db_def example_private_event_def example_public_event_def
  example_requests_def example_rsvp_def example_db_rsvp_def

lemmas rsvp_eval =
  rsvp_def get_event_def serializer_status_def validate_status_def STATUS_CHOICES_def
  STATUS_GOING_def STATUS_MAYBE_def STATUS_NOT_GOING_def rsvp_update_or_create_def
  rsvps_of_def next_pk_def rsvp_save_def rsvp_step_def HTTP_200_OK_def HTTP_201_CREATED_def
  Let_def rsvp_table_ok_def

theorem set_rsvp_upsert_witness:
  "rsvp_table_ok (rsvps example_db)
   \<and> latest_rsvp example_db example_requests 1 3 = Some ''Maybe''
   \<and> map rsvp_status (rsvps_of (rsvps (rsvp_run example_db example_requests)) 1 3) = [''Maybe'']
   \<and> rsvp example_db 5 (Some (User 3)) 1 (Some ''Going'') = Inr (example_db_rsvp, example_rsvp, 201)
   \<and> rsvps example_db_rsvp = rsvps example_db @ [example_rsvp]
   \<and> rsvp_created_at example_rsvp = 5
   \<and> rsvp_table_ok (rsvps example_db_rsvp)
   \<and> rsvp example_db_rsvp 6 (Some (User 3)) 1 (Some ''Maybe'') =
       Inr (example_db_rsvp\<lparr>rsvps := [example_rsvp\<lparr>rsvp_status := ''Maybe''\<rparr>]\<rparr>,
            example_rsvp\<lparr>rsvp_status := ''Maybe''\<rparr>, 200)
   \<and> rsvp_created_at (example_rsvp\<lparr>rsvp_status := ''Maybe''\<rparr>) = 5"
proof -
  have ok0: "rsvp_table_ok (rsvps example_db)"
    by (simp add: example_rsvp_defs rsvp_table_ok_def)
  have ok1: "rsvp_table_ok (rsvps example_db_rsvp)"
    by (simp add: example_rsvp_defs rsvp_table_ok_def)
  have first: "rsvp example_db 5 (Some (User 3)) 1 (Some ''Going'') =
      Inr (example_db_rsvp, example_rsvp, 201)"
    by (simp add: example_rsvp_defs rsvp_eval)
  have second: "rsvp example_db_rsvp 6 (Some (User 3)) 1 (Some ''Maybe'') =
       Inr (example_db_rsvp\<lparr>rsvps := [example_rsvp\<lparr>rsvp_status := ''Maybe''\<rparr>]\<rparr>,
            example_rsvp\<lparr>rsvp_status := ''Maybe''\<rparr>, 200)"
    by (simp add: example_rsvp_defs rsvp_eval)
  have latest: "latest_rsvp example_db example_requests 1 3 = Some ''Maybe''"
    using first second by (simp add: example_requests_def rsvp_step_def)
  from set_rsvp_upsert [OF ok0, where qs = example_requests and event_id = 1 and user_id = 3
      and s = "''Maybe''" and now = 5 and caller = "Some (User 3)" and e = 1
      and st = "Some ''Going''" and d' = example_db_rsvp and obj = example_rsvp and code = 201]
    latest first
  have a: "map rsvp_status (rsvps_of (rsvps (rsvp_run example_db example_requests)) 1 3) = [''Maybe'']"
    by blast
  have b: "rsvps example_db_rsvp = rsvps example_db @ [example_rsvp]"
    by (simp add: example_rsvp_defs)
  have c: "rsvp_created_at example_rsvp = 5"
    "rsvp_created_at (example_rsvp\<lparr>rsvp_status := ''Maybe''\<rparr>) = 5"
    by (simp_all add: example_rsvp_def)
  show ?thesis
    using ok0 ok1 first second latest a b c by simp
qed

section \<open>The review table\<close>

lemma reviews_of_mem:
  "r \<in> set (reviews_of rows e u) \<longleftrightarrow> r \<in> set rows \<and> review_event r = e \<and> review_user r = u"
  by (auto simp: reviews_of_def)

lemma reviews_of_single:
  assumes "reviews_of rows e u = [found]"
  shows "found \<in> set rows" "review_event found = e" "review_user found = u"
    "\<forall>r \<in> set rows. review_event r = e \<and> review_user r = u \<longrightarrow> r = found"
proof -
  have "set (reviews_of rows e u) = {found}" using assms by simp
  then have *: "\<And>r. (r \<in> set rows \<and> review_event r = e \<and> review_user r = u) = (r = found)"
    unfolding reviews_of_mem [symmetric] by simp
  from * [of found] show "found \<in> set rows" "review_event found = e" "review_user found = u"
    by simp_all
  from * show "\<forall>r \<in> set rows. review_event r = e \<and> review_user r = u \<longrightarrow> r = found"
    by blast
qed

lemma reviews_of_ok: "review_table_ok rows \<Longrightarrow> length (reviews_of rows e u) \<le> 1"
  using filter_key_distinct [of "\<lambda>r. (review_event r, review_user r)" rows "(e, u)"]
  by (simp add: review_table_ok_def reviews_of_def)

lemma reviews_of_cases:
  assumes "review_table_ok rows"
  obtains (absent) "reviews_of rows e u = []" | (present) found where "reviews_of rows e u = [found]"
proof (cases "reviews_of rows e u")
  case Nil
  then show ?thesis by (rule absent)
next
  case (Cons found rest)
  with reviews_of_ok [OF assms, of e u] have "rest = []" by simp
  with Cons show ?thesis by (simp add: present)
qed

lemma review_pk_eq_iff:
  assumes "distinct (map review_pk rows)" "found \<in> set rows" "r \<in> set rows"
  shows "review_pk r = review_pk found \<longleftrightarrow> r = found"
  using assms by (auto simp: distinct_map dest: inj_onD)

lemma review_first_absent: "reviews_of rows e u = [] \<Longrightarrow> review_first rows e u = None"
  by (simp add: review_first_def)

lemma review_first_present: "reviews_of rows e u = [found] \<Longrightarrow> review_first rows e u = Some found"
  by (simp add: review_first_def)

lemma review_create_absent:
  "reviews_of rows e u = [] \<Longrightarrow>
   review_create rows now e u n c =
     Inr (rows @ [\<lparr>review_pk = next_pk (map review_pk rows), review_event = e, review_user = u,
                    rating = n, comment = c, review_created_at = now\<rparr>],
          \<lparr>review_pk = next_pk (map review_pk rows), review_event = e, review_user = u,
            rating = n, comment = c, review_created_at = now\<rparr>)"
  by (auto simp: review_create_def Let_def reviews_of_def filter_empty_conv)

lemma review_create_present:
  "reviews_of rows e u \<noteq> [] \<Longrightarrow> review_create rows now e u n c = Inl IntegrityError"
  by (auto simp: review_create_def reviews_of_def filter_empty_conv)

lemma review_save_found:
  assumes ok: "review_table_ok rows" and f: "reviews_of rows e u = [found]"
  shows "review_save rows (found\<lparr>rating := n, comment := c\<rparr>) =
      Inr (map (\<lambda>r. if r = found then found\<lparr>rating := n, comment := c\<rparr> else r) rows)"
proof -
  note single = reviews_of_single [OF f]
  have no: "\<not> (\<exists>r \<in> set rows. review_pk r \<noteq> review_pk found
              \<and> review_event r = e \<and> review_user r = u)"
    using single(4) by blast
  have "distinct (map review_pk rows)" using ok by (simp add: review_table_ok_def)
  then have "map (\<lambda>r. if review_pk r = review_pk found then found\<lparr>rating := n, comment := c\<rparr> else r) rows
      = map (\<lambda>r. if r = found then found\<lparr>rating := n, comment := c\<rparr> else r) rows"
    using review_pk_eq_iff [OF _ single(1)] by (intro map_cong) simp_all
  with no show ?thesis
    by (simp add: review_save_def single(2,3))
qed

lemma reviews_of_replace:
  "review_event new = review_event found \<Longrightarrow> review_user new = review_user found \<Longrightarrow>
   reviews_of (map (\<lambda>r. if r = found then new else r) rows) e u
   = map (\<lambda>r. if r = found then new else r) (reviews_of rows e u)"
  by (induction rows) (auto simp: reviews_of_def)

lemma reviews_of_append:
  "reviews_of (rows @ [obj]) e u =
     reviews_of rows e u @ (if review_event obj = e \<and> review_user obj = u then [obj] else [])"
  by (simp add: reviews_of_def)

lemma review_table_ok_append:
  assumes "review_table_ok rows" "reviews_of rows e u = []"
  shows "review_table_ok (rows @ [\<lparr>review_pk = next_pk (map review_pk rows), review_event = e,
            review_user = u, rating = n, comment = c, review_created_at = now\<rparr>])"
  using assms next_pk_fresh [of "map review_pk rows"]
  by (auto simp: review_table_ok_def reviews_of_def filter_empty_conv)

lemma review_table_ok_replace:
  assumes "review_table_ok rows"
  shows "review_table_ok
           (map (\<lambda>r. if r = found then found\<lparr>rating := n, comment := c\<rparr> else r) rows)"
proof -
  have eq1: "map review_pk (map (\<lambda>r. if r = found then found\<lparr>rating := n, comment := c\<rparr> else r) rows)
      = map review_pk rows"
    by (induction rows) auto
  have eq2: "map (\<lambda>r. (review_event r, review_user r))
        (map (\<lambda>r. if r = found then found\<lparr>rating := n, comment := c\<rparr> else r) rows)
      = map (\<lambda>r. (review_event r, review_user r)) rows"
    by (induction rows) auto
  show ?thesis
    unfolding review_table_ok_def eq1 eq2 using assms unfolding review_table_ok_def .
qed

section \<open>Trimming\<close>

lemma list_all_takeWhile: "list_all P (takeWhile P xs)"
  by (induction xs) auto

lemma lstrip_split: "s = takeWhile py_isspace s @ lstrip s"
  by (simp add: lstrip_def)

lemma rstrip_split: "s = rstrip s @ rev (takeWhile py_isspace (rev s))"
proof -
  have "rstrip s @ rev (takeWhile py_isspace (rev s))
      = rev (takeWhile py_isspace (rev s) @ dropWhile py_isspace (rev s))"
    by (simp only: rstrip_def rev_append)
  also have "\<dots> = rev (rev s)"
    by (simp only: takeWhile_dropWhile_id)
  finally show ?thesis by simp
qed

lemma rstrip_last: "rstrip s \<noteq> [] \<Longrightarrow> \<not> py_isspace (last (rstrip s))"
  using hd_dropWhile [of py_isspace "rev s"] by (simp add: rstrip_def last_rev)

lemma lstrip_hd: "lstrip s \<noteq> [] \<Longrightarrow> \<not> py_isspace (hd (lstrip s))"
  using hd_dropWhile [of py_isspace s] by (simp add: lstrip_def)

lemma strip_trimmed: "trimmed_of s (strip s)"
proof -
  let ?pre = "takeWhile py_isspace s"
  let ?post = "rev (takeWhile py_isspace (rev (lstrip s)))"
  have l: "s = ?pre @ lstrip s" by (rule lstrip_split)
  have r: "lstrip s = strip s @ ?post"
    using rstrip_split [of "lstrip s"] by (simp add: strip_def)
  have split: "s = ?pre @ strip s @ ?post" using l r by metis
  have ws: "list_all py_isspace ?pre" "list_all py_isspace ?post"
    by (simp_all add: list_all_takeWhile)
  have ends: "\<not> py_isspace (hd (strip s)) \<and> \<not> py_isspace (last (strip s))" if ne: "strip s \<noteq> []"
  proof -
    have "lstrip s \<noteq> []" using r ne by auto
    then have "\<not> py_isspace (hd (lstrip s))" by (rule lstrip_hd)
    moreover have "hd (lstrip s) = hd (strip s)" using r ne by (metis hd_append2)
    moreover have "\<not> py_isspace (last (strip s))"
      using rstrip_last [of "lstrip s"] ne by (simp add: strip_def)
    ultimately show ?thesis by simp
  qed
  show ?thesis
    unfolding trimmed_of_def using split ws ends by blast
qed

section \<open>Posting a review\<close>

lemma form_rating_Some:
  "form_rating py pr = Some n \<longleftrightarrow> (\<exists>s. pr = Some s \<and> py_int py s = Some n \<and> 1 \<le> n \<and> n \<le> 5)"
  by (cases pr) (auto simp: form_rating_def split: option.splits)

lemma form_rating_None:
  "form_rating py pr = None \<longleftrightarrow> \<not> (\<exists>s n. pr = Some s \<and> py_int py s = Some n \<and> 1 \<le> n \<and> n \<le> 5)"
  by (cases pr) (auto simp: form_rating_def split: option.splits)

lemma post_review_POST:
  assumes "get_event d e = Some ev"
  shows "post_review py d now (User uid) e POST pr pc =
     (case form_rating py pr of
        None \<Rightarrow> Inl InvalidRating
      | Some n \<Rightarrow>
          (case review_first (reviews d) e uid of
             Some existing \<Rightarrow>
               (case review_save (reviews d) (existing\<lparr>rating := n, comment := strip (post_get pc)\<rparr>) of
                  Inl err \<Rightarrow> Inl err
                | Inr rows \<Rightarrow> Inr (d\<lparr>reviews := rows\<rparr>))
           | None \<Rightarrow>
               (case review_create (reviews d) now e uid n (strip (post_get pc)) of
                  Inl err \<Rightarrow> Inl err
                | Inr (rows, obj) \<Rightarrow> Inr (d\<lparr>reviews := rows\<rparr>))))"
proof -
  have e: "e = pk ev" using get_event_pk [OF assms] by simp
  have g: "get_event d (pk ev) = Some ev" using assms e by simp
  show ?thesis unfolding e by (simp add: post_review_def g Let_def)
qed

lemma review_save_error: "review_save rows obj = Inl err \<Longrightarrow> err = IntegrityError"
  by (auto simp: review_save_def split: if_splits)

lemma review_create_error: "review_create rows now e u n c = Inl err \<Longrightarrow> err = IntegrityError"
  by (auto simp: review_create_def Let_def split: if_splits)

lemma post_review_InvalidRating:
  assumes "get_event d e = Some ev"
  shows "post_review py d now (User uid) e POST pr pc = Inl InvalidRating \<longleftrightarrow> form_rating py pr = None"
proof (cases "form_rating py pr")
  case None
  then show ?thesis by (simp add: post_review_POST [OF assms])
next
  case (Some n)
  have "post_review py d now (User uid) e POST pr pc \<noteq> Inl InvalidRating"
  proof
    assume a: "post_review py d now (User uid) e POST pr pc = Inl InvalidRating"
    show False
    proof (cases "review_first (reviews d) e uid")
      case None
      with a Some show False
        using review_create_error [of "reviews d" now e uid n "strip (post_get pc)" InvalidRating]
        by (simp add: post_review_POST [OF assms] split: sum.splits prod.splits)
    next
      case (Some existing)
      with a \<open>form_rating py pr = Some n\<close> show False
        using review_save_error [of "reviews d" "existing\<lparr>rating := n, comment := strip (post_get pc)\<rparr>" InvalidRating]
        by (simp add: post_review_POST [OF assms] split: sum.splits)
    qed
  qed
  with Some show ?thesis by simp
qed

text \<open>The web form's \<open>post_review\<close> is an upsert on a table the database keeps unique.\<close>

lemma post_review_upsert:
  assumes ev: "get_event d e = Some ev" and ok: "review_table_ok (reviews d)"
    and n: "form_rating py pr = Some n"
  shows "reviews_of (reviews d) e uid = [] \<Longrightarrow>
           post_review py d now (User uid) e POST pr pc =
             Inr (d\<lparr>reviews := reviews d @
                    [\<lparr>review_pk = next_pk (map review_pk (reviews d)), review_event = e,
                      review_user = uid, rating = n, comment = strip (post_get pc),
                      review_created_at = now\<rparr>]\<rparr>)"
    and "reviews_of (reviews d) e uid = [found] \<Longrightarrow>
           post_review py d now (User uid) e POST pr pc =
             Inr (d\<lparr>reviews :=
                    map (\<lambda>r. if r = found then found\<lparr>rating := n, comment := strip (post_get pc)\<rparr>
                              else r) (reviews d)\<rparr>)"
proof -
  show "post_review py d now (User uid) e POST pr pc =
             Inr (d\<lparr>reviews := reviews d @
                    [\<lparr>review_pk = next_pk (map review_pk (reviews d)), review_event = e,
                      review_user = uid, rating = n, comment = strip (post_get pc),
                      review_created_at = now\<rparr>]\<rparr>)"
    if "reviews_of (reviews d) e uid = []"
    using review_first_absent [OF that] review_create_absent [OF that, where now = now and n = n and c = "strip (post_get pc)"]
    by (simp add: post_review_POST [OF ev] n)
  show "post_review py d now (User uid) e POST pr pc =
             Inr (d\<lparr>reviews :=
                    map (\<lambda>r. if r = found then found\<lparr>rating := n, comment := strip (post_get pc)\<rparr>
                              else r) (reviews d)\<rparr>)"
    if "reviews_of (reviews d) e uid = [found]"
    using review_first_present [OF that] review_save_found [OF ok that, where n = n and c = "strip (post_get pc)"]
    by (simp add: post_review_POST [OF ev] n)
qed

lemma post_review_stored:
  assumes ev: "get_event d e = Some ev" and ok: "review_table_ok (reviews d)"
    and res: "post_review py d now (User uid) e POST pr pc = Inr d'"
  shows "\<exists>r. reviews_of (reviews d') e uid = [r] \<and> comment r = strip (post_get pc)
            \<and> form_rating py pr = Some (rating r) \<and> review_table_ok (reviews d')"
proof -
  from res obtain n where n: "form_rating py pr = Some n"
    by (cases "form_rating py pr") (auto simp: post_review_POST [OF ev])
  note ups = post_review_upsert [OF ev ok n, where uid = uid and now = now and pc = pc]
  from ok show ?thesis
  proof (cases rule: reviews_of_cases [of _ e uid])
    case absent
    let ?new = "\<lparr>review_pk = next_pk (map review_pk (reviews d)), review_event = e,
                      review_user = uid, rating = n, comment = strip (post_get pc),
                      review_created_at = now\<rparr>"
    from ups(1) [OF absent] res have d': "reviews d' = reviews d @ [?new]" by auto
    have "reviews_of (reviews d') e uid = [?new]"
      using absent by (simp add: d' reviews_of_append)
    moreover have "review_table_ok (reviews d')"
      using review_table_ok_append [OF ok absent, where n = n and c = "strip (post_get pc)" and now = now] by (simp add: d')
    ultimately show ?thesis using n by simp
  next
    case (present found)
    let ?new = "found\<lparr>rating := n, comment := strip (post_get pc)\<rparr>"
    from ups(2) [OF present] res
    have d': "reviews d' = map (\<lambda>r. if r = found then ?new else r) (reviews d)" by auto
    have "reviews_of (reviews d') e uid = [?new]"
      using present by (simp add: d' reviews_of_replace)
    moreover have "review_table_ok (reviews d')"
      using review_table_ok_replace [OF ok, where found = found and n = n and c = "strip (post_get pc)"] by (simp add: d')
    ultimately show ?thesis using n by simp
  qed
qed

lemma validate_rating_Inl:
  "validate_rating py v = Inl InvalidRating \<longleftrightarrow>
     \<not> (\<exists>n. (v = PyInt n \<or> (\<exists>s. v = PyStr s \<and> py_int py s = Some n)) \<and> 1 \<le> n \<and> n \<le> 5)"
  by (cases v) (auto simp: validate_rating_def split: option.splits)

section \<open>\<open>int\<close> and \<open>strip\<close> on particular texts\<close>

lemma those_map_Some: "those (map Some xs) = Some xs"
  by (induction xs) auto

lemma digits_value_zeros: "digits_value acc (replicate n 0x30) = Some (acc * 10 ^ n)"
  by (induction n arbitrary: acc) (auto simp: is_digit_def digit_value_def)

text \<open>A text of \<open>n\<close> zeros is the literal 0 unless it is longer than the limit allows.\<close>

lemma py_int_zeros:
  assumes "0 < n"
  shows "py_int py (replicate n 0x30) =
           (if 640 < n \<and> 0 < int_max_str_digits py \<and> int_max_str_digits py < n then None
            else Some 0)"
proof -
  obtain m where n: "n = Suc m" using assms by (cases n) auto
  have t: "transform_decimal_and_space py (replicate n 0x30) = Some (replicate n 0x30)"
    using those_map_Some [of "replicate n 0x30"]
    by (simp add: transform_decimal_and_space_def to_ascii_def)
  have u: "unsigned_value (replicate n 0x30) = Some 0"
    by (simp add: n unsigned_value_def is_digit_def digit_value_def digits_value_zeros)
  have d: "dropWhile ascii_isspace (replicate n 0x30) = replicate n 0x30"
    by (simp add: dropWhile_replicate ascii_isspace_def)
  have b: "takeWhile (\<lambda>c. is_digit c \<or> c = 0x5F) (replicate n 0x30) = replicate n 0x30"
    "dropWhile (\<lambda>c. is_digit c \<or> c = 0x5F) (replicate n 0x30) = []"
    by (simp_all add: takeWhile_replicate dropWhile_replicate is_digit_def)
  have f: "length (filter is_digit (replicate n 0x30)) = n"
    by (simp add: is_digit_def)
  have h: "(case replicate n (0x30::nat) of
              [] \<Rightarrow> []
            | c # r \<Rightarrow> if c = 0x2B \<or> c = 0x2D then r else replicate n 0x30)
           = replicate n 0x30"
    "(case replicate n (0x30::nat) of [] \<Rightarrow> False | c # r \<Rightarrow> c = 0x2D) = False"
    by (simp_all add: n)
  have "long_from_string mx (replicate n 0x30) =
          (if 640 < n \<and> 0 < mx \<and> mx < n then None else Some 0)" for mx
    unfolding long_from_string_def Let_def d h b f u by simp
  then show ?thesis
    by (simp only: py_int_def t option.case)
qed

text \<open>
  C8. For an authenticated caller and a stored event, on every interpreter, the web form's
  \<open>post_review\<close> fails with \<open>InvalidRating\<close> exactly when the rating field is missing or
  \<open>int\<close> does not read it as an integer from 1 to 5, and the serializer's
  \<open>validate_rating\<close> rejects exactly the values that are not such an integer. When
  \<open>post_review\<close> succeeds, the caller's one review of the event holds the parsed rating
  and the comment trimmed of leading and trailing whitespace (an empty comment is stored
  as it is).
\<close>

theorem post_review_validation:
  assumes "get_event d event_id = Some e"
  shows "(post_review py d now (User uid) event_id POST post_rating post_comment = Inl InvalidRating)
          = (\<not> (\<exists>s n. post_rating = Some s \<and> py_int py s = Some n \<and> 1 \<le> n \<and> n \<le> 5))
     \<and> (validate_rating py v = Inl InvalidRating)
          = (\<not> (\<exists>n. (v = PyInt n \<or> (\<exists>s. v = PyStr s \<and> py_int py s = Some n)) \<and> 1 \<le> n \<and> n \<le> 5))
     \<and> (review_table_ok (reviews d)
          \<and> post_review py d now (User uid) event_id POST post_rating post_comment = Inr d' \<longrightarrow>
          (\<exists>r. reviews_of (reviews d') event_id uid = [r]
               \<and> comment r = strip (post_get post_comment)
               \<and> trimmed_of (post_get post_comment) (comment r)
               \<and> form_rating py post_rating = Some (rating r)))"
proof (intro conjI impI)
  show "(post_review py d now (User uid) event_id POST post_rating post_comment = Inl InvalidRating)
          = (\<not> (\<exists>s n. post_rating = Some s \<and> py_int py s = Some n \<and> 1 \<le> n \<and> n \<le> 5))"
    unfolding post_review_InvalidRating [OF assms] by (rule form_rating_None)
  show "(validate_rating py v = Inl InvalidRating)
          = (\<not> (\<exists>n. (v = PyInt n \<or> (\<exists>s. v = PyStr s \<and> py_int py s = Some n)) \<and> 1 \<le> n \<and> n \<le> 5))"
    by (rule validate_rating_Inl)
next
  assume a: "review_table_ok (reviews d)
      \<and> post_review py d now (User uid) event_id POST post_rating post_comment = Inr d'"
  from post_review_stored [OF assms] a
  obtain r where r: "reviews_of (reviews d') event_id uid = [r]"
      "comment r = strip (post_get post_comment)" "form_rating py post_rating = Some (rating r)"
    by blast
  moreover have "trimmed_of (post_get post_comment) (comment r)"
    using strip_trimmed [of "post_get post_comment"] r(2) by simp
  ultimately show "\<exists>r. reviews_of (reviews d') event_id uid = [r]
               \<and> comment r = strip (post_get post_comment)
               \<and> trimmed_of (post_get post_comment) (comment r)
               \<and> form_rating py post_rating = Some (rating r)"
    by blast
qed

lemmas review_eval =
  get_event_def reviews_of_def review_first_def review_save_def review_create_def
  form_rating_def py_int_def transform_decimal_and_space_def to_ascii_def long_from_string_def
  ascii_isspace_def is_digit_def unsigned_value_def digit_value_def strip_def lstrip_def
  rstrip_def py_isspace_def char_field_def next_pk_def validate_rating_def post_get_def
  py_text_def example_interpreter_def decimal_digit_runs_def HTTP_201_CREATED_def Let_def

theorem post_review_validation_witness:
  "get_event example_db 2 = Some example_public_event
   \<and> py_int example_interpreter (py_text ''6'') = Some 6
   \<and> post_review example_interpreter example_db 7 (User 2) 2 POST
         (Some (py_text ''6'')) (Some (py_text ''x'')) = Inl InvalidRating
   \<and> py_int example_interpreter [0x1C, 0x33, 0x1F] = None
   \<and> post_review example_interpreter example_db 7 (User 2) 2 POST
         (Some [0x1C, 0x33, 0x1F]) (Some (py_text ''x'')) = Inl InvalidRating
   \<and> validate_rating example_interpreter (PyInt 6) = Inl InvalidRating
   \<and> py_int example_interpreter [0xA0, 0x33] = Some 3
   \<and> validate_rating example_interpreter (PyStr [0xA0, 0x33]) \<noteq> Inl InvalidRating
   \<and> review_table_ok (reviews example_db)
   \<and> post_review example_interpreter example_db 7 (User 2) 2 POST
         (Some [0xA0, 0x664]) (Some ([0xA0, 0x1C] @ py_text ''great'' @ [0x85])) =
       Inr (example_db\<lparr>reviews :=
              [\<lparr>review_pk = 1, review_event = 2, review_user = 2, rating = 4,
                comment = py_text ''great'', review_created_at = 7\<rparr>]\<rparr>)
   \<and> trimmed_of ([0xA0, 0x1C] @ py_text ''great'' @ [0x85]) (py_text ''great'')"
proof -
  let ?d' = "example_db\<lparr>reviews :=
              [\<lparr>review_pk = 1, review_event = 2, review_user = 2, rating = 4,
                comment = py_text ''great'', review_created_at = 7\<rparr>]\<rparr>"
  let ?c = "[0xA0, 0x1C] @ py_text ''great'' @ [0x85]"
  have ev: "get_event example_db 2 = Some example_public_event"
    by (simp add: example_event_defs get_event_def)
  have six: "py_int example_interpreter (py_text ''6'') = Some 6"
    by (simp add: review_eval)
  have sep: "py_int example_interpreter [0x1C, 0x33, 0x1F] = None"
    by (simp add: review_eval)
  have nbsp: "py_int example_interpreter [0xA0, 0x33] = Some 3"
    by (simp add: review_eval)
  have ok: "review_table_ok (reviews example_db)"
    by (simp add: example_event_defs review_table_ok_def)
  have good: "post_review example_interpreter example_db 7 (User 2) 2 POST
                (Some [0xA0, 0x664]) (Some ?c) = Inr ?d'"
    by (simp add: post_review_def review_eval example_event_defs)
  note bad = post_review_validation [OF ev, where py = example_interpreter and now = 7
      and uid = 2 and post_comment = "Some (py_text ''x'')"]
  have a: "post_review example_interpreter example_db 7 (User 2) 2 POST
             (Some (py_text ''6'')) (Some (py_text ''x'')) = Inl InvalidRating"
    using bad [where post_rating = "Some (py_text ''6'')"] six by simp
  have a': "post_review example_interpreter example_db 7 (User 2) 2 POST
              (Some [0x1C, 0x33, 0x1F]) (Some (py_text ''x'')) = Inl InvalidRating"
    using bad [where post_rating = "Some [0x1C, 0x33, 0x1F]"] sep by simp
  have b: "validate_rating example_interpreter (PyInt 6) = Inl InvalidRating"
    using bad [where v = "PyInt 6"] by simp
  have b': "validate_rating example_interpreter (PyStr [0xA0, 0x33]) \<noteq> Inl InvalidRating"
    using bad [where v = "PyStr [0xA0, 0x33]"] nbsp by simp
  from post_review_validation [OF ev, where py = example_interpreter and now = 7 and uid = 2
      and post_rating = "Some [0xA0, 0x664]" and post_comment = "Some ?c" and d' = ?d'] ok good
  obtain r where r: "reviews_of (reviews ?d') 2 2 = [r]"
      "trimmed_of (post_get (Some ?c)) (comment r)"
    by blast
  from r(1) have "comment r = py_text ''great''"
    by (auto simp: reviews_of_def)
  with r(2) have c: "trimmed_of ?c (py_text ''great'')"
    by (simp add: post_get_def)
  from ev six a sep a' b nbsp b' ok good c show ?thesis
    by (intro conjI)
qed

text \<open>
  More of \<open>int\<close> and \<open>strip\<close> on the example interpreter. \<open>int\<close> accepts no-break space
  and form feed around the literal, digits of any script and single underscores between
  digits; it refuses the separators 0x1C to 0x1F, which \<open>strip\<close> removes, as well as
  NUL, a space after the sign, a superscript digit, and a literal of more than 4300
  digits. \<open>strip\<close> leaves the zero-width space in place.
\<close>

lemma py_int_examples:
  "py_int example_interpreter [0x33, 0x85] = Some 3
   \<and> py_int example_interpreter [0x0C, 0x2D, 0x33, 0x5F, 0x664, 0x20] = Some (- 34)
   \<and> py_int example_interpreter [0x33, 0x00] = None
   \<and> py_int example_interpreter [0x2B, 0x20, 0x33] = None
   \<and> py_int example_interpreter [0xB2] = None
   \<and> strip [0xA0, 0x68, 0x69, 0x85] = py_text ''hi''
   \<and> strip [0x1C, 0x68, 0x69, 0x1F] = py_text ''hi''
   \<and> strip [0x200B, 0x68, 0x69] = [0x200B, 0x68, 0x69]"
  by (simp add: review_eval)

lemma py_int_limit_examples:
  "py_int example_interpreter (replicate 4300 0x30) = Some 0
   \<and> py_int example_interpreter (replicate 4301 0x30) = None"
  by (simp add: py_int_zeros example_interpreter_def)
section \<open>Reviews through the API, and who may act\<close>

lemma reviews_post_User:
  assumes "get_event d e = Some ev"
  shows "reviews_post py d now (Some (User uid)) e data =
     (case data_rating data of
        None \<Rightarrow> Inl InvalidRating
      | Some i \<Rightarrow>
          (case validate_rating py (PyInt i) of
             Inl err \<Rightarrow> Inl err
           | Inr n \<Rightarrow>
               (case char_field True None (post_get (data_comment data)) of
                  None \<Rightarrow> Inl ValidationError
                | Some c \<Rightarrow>
                    (case review_create (reviews d) now e uid n c of
                       Inl err \<Rightarrow> Inl err
                     | Inr (rows, obj) \<Rightarrow> Inr (d\<lparr>reviews := rows\<rparr>, obj, HTTP_201_CREATED)))))"
proof -
  have e: "e = pk ev" using get_event_pk [OF assms] by simp
  have g: "get_event d (pk ev) = Some ev" using assms e by simp
  show ?thesis unfolding e by (simp add: reviews_post_def g)
qed

lemma validate_rating_PyInt:
  "validate_rating py (PyInt i) = (if 1 \<le> i \<and> i \<le> 5 then Inr i else Inl InvalidRating)"
  by (auto simp: validate_rating_def)

text \<open>
  The API never overwrites: once the caller has a review of the event, every further
  \<open>POST\<close> with a valid rating and comment is refused by the uniqueness constraint and the
  tables stay as they are.
\<close>

lemma reviews_post_duplicate:
  assumes "get_event d e = Some ev" "reviews_of (reviews d) e uid \<noteq> []"
    "data_rating data = Some i" "1 \<le> i" "i \<le> 5"
    "char_field True None (post_get (data_comment data)) = Some c"
  shows "reviews_post py d now (Some (User uid)) e data = Inl IntegrityError"
  using assms(3-6) review_create_present [OF assms(2)]
  by (simp add: reviews_post_User [OF assms(1)] validate_rating_PyInt)

lemma reviews_post_not_Forbidden: "reviews_post py d now caller e data \<noteq> Inl Forbidden"
proof (cases caller)
  case None
  then show ?thesis by (simp add: reviews_post_def)
next
  case (Some user)
  show ?thesis
  proof (cases user)
    case AnonymousUser
    with Some show ?thesis by (simp add: reviews_post_def)
  next
    case (User uid)
    show ?thesis
    proof (cases "get_event d e")
      case None
      with Some User show ?thesis by (simp add: reviews_post_def)
    next
      case ev: (Some ev)
      show ?thesis
        using review_create_error [of "reviews d" now e uid _ _ Forbidden]
        by (auto simp: Some User reviews_post_User [OF ev] validate_rating_PyInt
              split: option.splits sum.splits)
    qed
  qed
qed

lemma post_review_not_Forbidden: "post_review py d now caller e method pr pc \<noteq> Inl Forbidden"
proof (cases caller)
  case AnonymousUser
  then show ?thesis by (simp add: post_review_def)
next
  case (User uid)
  show ?thesis
  proof (cases "get_event d e")
    case None
    with User show ?thesis by (simp add: post_review_def)
  next
    case ev: (Some ev)
    show ?thesis
    proof (cases "method = POST")
      case False
      with User ev show ?thesis by (simp add: post_review_def)
    next
      case True
      show ?thesis
        using review_create_error [of "reviews d" now e uid _ "strip (post_get pc)" Forbidden]
          review_save_error [of "reviews d" _ Forbidden]
        by (auto simp: User True post_review_POST [OF ev] split: option.splits sum.splits)
    qed
  qed
qed

lemma rsvp_Forbidden:
  assumes "get_event d e = Some ev" "\<not> is_public ev" "uid \<noteq> organizer ev"
    "uid \<notin> set (invited_users ev)"
  shows "rsvp d now (Some (User uid)) e st = Inl Forbidden"
    and "rsvp_create_or_update d now (User uid) e method ps = Inl Forbidden"
  using assms by (simp_all add: rsvp_def rsvp_create_or_update_def)

lemma post_review_succeeds:
  assumes ev: "get_event d e = Some ev" and ok: "review_table_ok (reviews d)"
    and n: "form_rating py pr = Some n"
  shows "\<exists>d'. post_review py d now (User uid) e POST pr pc = Inr d'"
  using ok
proof (cases rule: reviews_of_cases [of _ e uid])
  case absent
  from post_review_upsert(1) [OF ev ok n absent] show ?thesis by blast
next
  case (present found)
  from post_review_upsert(2) [OF ev ok n present] show ?thesis by blast
qed

text \<open>
  C4 (amended). The visibility rule gates the RSVP and only the RSVP. On a private event,
  an authenticated user who is neither the organizer nor invited is refused with
  \<open>Forbidden\<close> by both RSVP entry points, whatever status is sent. Neither review entry
  point ever answers \<open>Forbidden\<close>: the web form's \<open>post_review\<close> succeeds for every
  authenticated user on every stored event once the rating is valid.
\<close>

theorem acting_gate:
  "(get_event d event_id = Some e \<and> \<not> is_public e \<and> uid \<noteq> organizer e
      \<and> uid \<notin> set (invited_users e) \<longrightarrow>
      rsvp d now (Some (User uid)) event_id st = Inl Forbidden
      \<and> rsvp_create_or_update d now (User uid) event_id meth post_status = Inl Forbidden)
   \<and> post_review py d now caller event_id meth post_rating post_comment \<noteq> Inl Forbidden
   \<and> reviews_post py d now api_caller event_id data \<noteq> Inl Forbidden
   \<and> (get_event d event_id = Some e \<and> review_table_ok (reviews d)
        \<and> form_rating py post_rating = Some n \<longrightarrow>
        (\<exists>d'. post_review py d now (User uid) event_id POST post_rating post_comment = Inr d'))"
proof (intro conjI impI)
  assume a: "get_event d event_id = Some e \<and> \<not> is_public e \<and> uid \<noteq> organizer e
      \<and> uid \<notin> set (invited_users e)"
  then show "rsvp d now (Some (User uid)) event_id st = Inl Forbidden"
    using rsvp_Forbidden(1) by blast
  from a show "rsvp_create_or_update d now (User uid) event_id meth post_status = Inl Forbidden"
    using rsvp_Forbidden(2) by blast
next
  show "post_review py d now caller event_id meth post_rating post_comment \<noteq> Inl Forbidden"
    by (rule post_review_not_Forbidden)
  show "reviews_post py d now api_caller event_id data \<noteq> Inl Forbidden"
    by (rule reviews_post_not_Forbidden)
next
  assume "get_event d event_id = Some e \<and> review_table_ok (reviews d)
        \<and> form_rating py post_rating = Some n"
  then show "\<exists>d'. post_review py d now (User uid) event_id POST post_rating post_comment = Inr d'"
    using post_review_succeeds by blast
qed


theorem acting_gate_witness:
  "get_event example_db 1 = Some example_private_event
   \<and> \<not> is_public example_private_event
   \<and> 2 \<noteq> organizer example_private_event
   \<and> 2 \<notin> set (invited_users example_private_event)
   \<and> rsvp example_db 5 (Some (User 2)) 1 (Some ''Going'') = Inl Forbidden
   \<and> rsvp_create_or_update example_db 5 (User 2) 1 POST (Some ''Going'') = Inl Forbidden
   \<and> review_table_ok (reviews example_db)
   \<and> form_rating example_interpreter (Some (py_text ''5'')) = Some 5
   \<and> post_review example_interpreter example_db 7 (User 2) 1 POST (Some (py_text ''5'')) (Some (py_text ''nice'')) \<noteq> Inl Forbidden
   \<and> post_review example_interpreter example_db 7 (User 2) 1 POST (Some (py_text ''5'')) (Some (py_text ''nice'')) \<noteq> Inl NotFound"
proof -
  have ev: "get_event example_db 1 = Some example_private_event"
    by (simp add: example_event_defs get_event_def)
  have stranger: "\<not> is_public example_private_event" "2 \<noteq> organizer example_private_event"
    "2 \<notin> set (invited_users example_private_event)"
    by (simp_all add: example_private_event_def)
  have ok: "review_table_ok (reviews example_db)"
    by (simp add: example_event_defs review_table_ok_def)
  have five: "form_rating example_interpreter (Some (py_text ''5'')) = Some 5"
    by (simp add: review_eval)
  note gate = acting_gate [where py = example_interpreter and d = example_db and event_id = 1 and e = example_private_event
      and uid = 2 and now = 5 and st = "Some ''Going''" and meth = POST
      and post_status = "Some ''Going''" and post_rating = "Some (py_text ''5'')" and n = 5]
  have a: "rsvp example_db 5 (Some (User 2)) 1 (Some ''Going'') = Inl Forbidden"
    "rsvp_create_or_update example_db 5 (User 2) 1 POST (Some ''Going'') = Inl Forbidden"
    using gate ev stranger by blast+
  note gate' = acting_gate [where py = example_interpreter and d = example_db and event_id = 1 and e = example_private_event
      and uid = 2 and now = 7 and caller = "User 2" and meth = POST
      and post_rating = "Some (py_text ''5'')" and post_comment = "Some (py_text ''nice'')" and n = 5]
  have b: "post_review example_interpreter example_db 7 (User 2) 1 POST (Some (py_text ''5'')) (Some (py_text ''nice'')) \<noteq> Inl Forbidden"
    using gate' by blast
  have "\<exists>d'. post_review example_interpreter example_db 7 (User 2) 1 POST (Some (py_text ''5'')) (Some (py_text ''nice'')) = Inr d'"
    using gate' ev ok five by blast
  then have c: "post_review example_interpreter example_db 7 (User 2) 1 POST (Some (py_text ''5'')) (Some (py_text ''nice'')) \<noteq> Inl NotFound"
    by auto
  show ?thesis
    using ev stranger a b c ok five by simp
qed

theorem review_gate_counterexample:
  "get_event example_db 1 = Some example_private_event
   \<and> \<not> is_public example_private_event
   \<and> 2 \<noteq> organizer example_private_event
   \<and> 2 \<notin> set (invited_users example_private_event)
   \<and> post_review example_interpreter example_db 7 (User 2) 1 POST (Some (py_text ''5'')) (Some (py_text ''nice'')) =
       Inr (example_db\<lparr>reviews :=
              [\<lparr>review_pk = 1, review_event = 1, review_user = 2, rating = 5,
                comment = py_text ''nice'', review_created_at = 7\<rparr>]\<rparr>)
   \<and> reviews_post example_interpreter example_db 7 (Some (User 2)) 1
         \<lparr>data_rating = Some 5, data_comment = Some (py_text ''nice'')\<rparr> =
       Inr (example_db\<lparr>reviews :=
              [\<lparr>review_pk = 1, review_event = 1, review_user = 2, rating = 5,
                comment = py_text ''nice'', review_created_at = 7\<rparr>]\<rparr>,
            \<lparr>review_pk = 1, review_event = 1, review_user = 2, rating = 5,
              comment = py_text ''nice'', review_created_at = 7\<rparr>, 201)"
  by (simp add: post_review_def reviews_post_def review_eval example_event_defs)

section \<open>A second review of the same event\<close>

lemmas example_review_defs = example_review_def example_db_review_def

text \<open>
  C3. Through the web form a second review by the same user overwrites the first, but
  through the API it does not. User 3 posts rating 3 on event 1 through the API (201
  Created); the same user's second \<open>POST\<close>, with rating 4, ends in \<open>IntegrityError\<close>, and
  the stored review keeps rating 3. The same second review sent through the web form's
  \<open>post_review\<close> replaces rating and comment in the one stored row and keeps its creation
  time.
\<close>

theorem reviews_post_second_review:
  "reviews_post example_interpreter example_db 7 (Some (User 3)) 1 \<lparr>data_rating = Some 3, data_comment = Some (py_text ''ok'')\<rparr>
     = Inr (example_db_review, example_review, 201)
   \<and> reviews_post example_interpreter example_db_review 8 (Some (User 3)) 1
         \<lparr>data_rating = Some 4, data_comment = Some (py_text ''better'')\<rparr>
     = Inl IntegrityError
   \<and> map rating (reviews_of (reviews example_db_review) 1 3) = [3]
   \<and> post_review example_interpreter example_db_review 8 (User 3) 1 POST (Some (py_text ''4'')) (Some (py_text ''better''))
     = Inr (example_db_review
              \<lparr>reviews := [example_review\<lparr>rating := 4, comment := py_text ''better''\<rparr>]\<rparr>)
   \<and> review_created_at (example_review\<lparr>rating := 4, comment := py_text ''better''\<rparr>) = 7"
  by (simp add: post_review_def reviews_post_def review_eval example_event_defs
        example_review_defs)

section \<open>Counting RSVPs\<close>

lemma tally_step:
  "counts ''Not_Going'' \<noteq> None \<Longrightarrow>
   tally counts (st # sts) =
     tally (counts(normalized_key st \<mapsto>
              (case counts (normalized_key st) of None \<Rightarrow> 0 | Some n \<Rightarrow> n) + 1)) sts"
  by (auto simp: normalized_key_def)

lemma tally_char:
  assumes "counts ''Not_Going'' \<noteq> None"
  shows "tally counts sts =
     Inr (\<lambda>k. if k \<in> dom counts \<union> normalized_key ` set sts
               then Some ((case counts k of None \<Rightarrow> 0 | Some n \<Rightarrow> n)
                          + int (length (filter (\<lambda>st. normalized_key st = k) sts)))
               else None)"
  using assms
proof (induction sts arbitrary: counts)
  case Nil
  show ?case by (auto simp: fun_eq_iff split: option.splits)
next
  case (Cons st sts)
  let ?k = "normalized_key st"
  let ?c' = "counts(?k \<mapsto> (case counts ?k of None \<Rightarrow> 0 | Some n \<Rightarrow> n) + 1)"
  have ne: "?c' ''Not_Going'' \<noteq> None" using Cons.prems by simp
  have IH: "tally ?c' sts =
     Inr (\<lambda>k. if k \<in> dom ?c' \<union> normalized_key ` set sts
               then Some ((case ?c' k of None \<Rightarrow> 0 | Some n \<Rightarrow> n)
                          + int (length (filter (\<lambda>st. normalized_key st = k) sts)))
               else None)"
    by (rule Cons.IH) (rule ne)
  have eq: "(\<lambda>k. if k \<in> dom ?c' \<union> normalized_key ` set sts
               then Some ((case ?c' k of None \<Rightarrow> 0 | Some n \<Rightarrow> n)
                          + int (length (filter (\<lambda>st. normalized_key st = k) sts)))
               else None)
      = (\<lambda>k. if k \<in> dom counts \<union> normalized_key ` set (st # sts)
               then Some ((case counts k of None \<Rightarrow> 0 | Some n \<Rightarrow> n)
                          + int (length (filter (\<lambda>st. normalized_key st = k) (st # sts))))
               else None)"
    by (rule ext) (auto split: option.splits)
  have step: "tally counts (st # sts) = tally ?c' sts"
    using tally_step [of counts st sts] Cons.prems by blast
  show ?case
    by (simp only: step IH eq)
qed

lemma sum_key_counts:
  assumes "finite A" "f ` set xs \<subseteq> A"
  shows "(\<Sum>k\<in>A. int (length (filter (\<lambda>x. f x = k) xs))) = int (length xs)"
  using assms(2)
proof (induction xs)
  case Nil
  then show ?case by simp
next
  case (Cons x xs)
  then have mem: "f x \<in> A" and sub: "f ` set xs \<subseteq> A" by auto
  have "(\<Sum>k\<in>A. int (length (filter (\<lambda>y. f y = k) (x # xs))))
      = (\<Sum>k\<in>A. (if k = f x then 1 else 0) + int (length (filter (\<lambda>y. f y = k) xs)))"
    by (intro sum.cong) auto
  also have "\<dots> = (\<Sum>k\<in>A. (if k = f x then 1 else 0)) + int (length xs)"
    using Cons.IH [OF sub] by (simp add: sum.distrib)
  also have "(\<Sum>k\<in>A. (if k = f x then 1 else 0 :: int)) = 1"
    using mem assms(1) by simp
  finally show ?case by simp
qed

lemma rsvp_counts_char:
  "rsvp_counts rows =
     Inr (\<lambda>k. if k \<in> {''Going'', ''Maybe'', ''Not_Going''} \<union> normalized_key ` rsvp_status ` set rows
               then Some (int (length (filter (\<lambda>r. normalized_key (rsvp_status r) = k) rows)))
               else None)"
proof -
  let ?init = "[''Going'' \<mapsto> 0::int, ''Maybe'' \<mapsto> 0, ''Not_Going'' \<mapsto> 0]"
  have ne: "?init ''Not_Going'' \<noteq> None" by simp
  have d: "dom ?init = {''Going'', ''Maybe'', ''Not_Going''}" by auto
  have z: "(case ?init k of None \<Rightarrow> 0 | Some n \<Rightarrow> n) = 0" for k by simp
  have len: "length (filter (\<lambda>st. normalized_key st = k) (map rsvp_status rows))
      = length (filter (\<lambda>r. normalized_key (rsvp_status r) = k) rows)" for k
    by (simp add: filter_map comp_def)
  have "tally ?init (map rsvp_status rows) =
     Inr (\<lambda>k. if k \<in> dom ?init \<union> normalized_key ` set (map rsvp_status rows)
               then Some ((case ?init k of None \<Rightarrow> 0 | Some n \<Rightarrow> n)
                   + int (length (filter (\<lambda>st. normalized_key st = k) (map rsvp_status rows))))
               else None)"
    using ne by (rule tally_char)
  then show ?thesis
    unfolding rsvp_counts_def d z len by (simp cong: if_cong)
qed

lemma valid_status_key:
  "st \<in> set (map fst STATUS_CHOICES) \<Longrightarrow> normalized_key st \<in> {''Going'', ''Maybe'', ''Not_Going''}"
  by (auto simp: STATUS_CHOICES_def STATUS_GOING_def STATUS_MAYBE_def STATUS_NOT_GOING_def
        normalized_key_def)

text \<open>
  C6. Whatever the order in which the database returns the RSVP rows of an event, the
  tally returns a mapping (it never raises) in which the keys \<open>Going\<close>, \<open>Maybe\<close> and
  \<open>Not_Going\<close> are present; each key holds the number of the event's rows counted under
  it, rows with the stored label \<open>Not Going\<close> being counted under \<open>Not_Going\<close>; and the
  values sum to the number of RSVP rows of the event. When every stored status is one of the
  three choices of the model, these three keys are the only ones.
\<close>

theorem rsvp_counts_total:
  assumes "mset rows = mset (event_rsvps d event_id)"
  shows "\<exists>counts. rsvp_counts rows = Inr counts
     \<and> {''Going'', ''Maybe'', ''Not_Going''} \<subseteq> dom counts
     \<and> (\<forall>k \<in> dom counts. counts k =
           Some (int (length (filter (\<lambda>r. normalized_key (rsvp_status r) = k)
                                (event_rsvps d event_id)))))
     \<and> (\<Sum>k \<in> dom counts. the (counts k)) = int (length (event_rsvps d event_id))
     \<and> ((\<forall>r \<in> set (rsvps d). rsvp_status r \<in> set (map fst STATUS_CHOICES)) \<longrightarrow>
          dom counts = {''Going'', ''Maybe'', ''Not_Going''}
          \<and> the (counts ''Going'') + the (counts ''Maybe'') + the (counts ''Not_Going'')
              = int (length (event_rsvps d event_id)))"
proof -
  let ?ev = "event_rsvps d event_id"
  let ?K = "{''Going'', ''Maybe'', ''Not_Going''} \<union> normalized_key ` rsvp_status ` set rows"
  let ?n = "\<lambda>k. int (length (filter (\<lambda>r. normalized_key (rsvp_status r) = k) rows))"
  let ?c = "\<lambda>k. if k \<in> ?K then Some (?n k) else None"
  have c: "rsvp_counts rows = Inr ?c" by (rule rsvp_counts_char)
  have dom: "dom ?c = ?K" by (auto simp: dom_def)
  have fin: "finite ?K" by simp
  have same_len: "length rows = length ?ev"
    using assms by (metis size_mset)
  have same_set: "set rows = set ?ev"
    using assms by (metis set_mset_mset)
  have same_n: "?n k = int (length (filter (\<lambda>r. normalized_key (rsvp_status r) = k) ?ev))" for k
  proof -
    have "mset (filter (\<lambda>r. normalized_key (rsvp_status r) = k) rows)
        = mset (filter (\<lambda>r. normalized_key (rsvp_status r) = k) ?ev)"
      by (simp add: assms)
    then show ?thesis by (metis size_mset)
  qed
  have keys: "\<forall>k \<in> dom ?c. ?c k =
           Some (int (length (filter (\<lambda>r. normalized_key (rsvp_status r) = k) ?ev)))"
    unfolding dom using same_n by simp
  have "(\<Sum>k \<in> ?K. the (?c k)) = (\<Sum>k \<in> ?K. ?n k)"
    by (intro sum.cong) simp_all
  also have "\<dots> = int (length rows)"
    by (rule sum_key_counts [OF fin]) auto
  finally have total: "(\<Sum>k \<in> dom ?c. the (?c k)) = int (length ?ev)"
    unfolding dom same_len .
  have three: "dom ?c = {''Going'', ''Maybe'', ''Not_Going''}
      \<and> the (?c ''Going'') + the (?c ''Maybe'') + the (?c ''Not_Going'') = int (length ?ev)"
    if valid: "\<forall>r \<in> set (rsvps d). rsvp_status r \<in> set (map fst STATUS_CHOICES)"
  proof -
    have "set rows \<subseteq> set (rsvps d)"
      unfolding same_set by (auto simp: event_rsvps_def)
    with valid have "normalized_key ` rsvp_status ` set rows \<subseteq> {''Going'', ''Maybe'', ''Not_Going''}"
      using valid_status_key by blast
    then have K: "?K = {''Going'', ''Maybe'', ''Not_Going''}" by blast
    have d3: "dom ?c = {''Going'', ''Maybe'', ''Not_Going''}" by (rule trans [OF dom K])
    have "(\<Sum>k \<in> {''Going'', ''Maybe'', ''Not_Going''}. the (?c k)) = int (length ?ev)"
      using total unfolding d3 .
    then have "the (?c ''Going'') + the (?c ''Maybe'') + the (?c ''Not_Going'') = int (length ?ev)"
      by simp
    with d3 show ?thesis by blast
  qed
  have sub: "{''Going'', ''Maybe'', ''Not_Going''} \<subseteq> dom ?c"
    unfolding dom by blast
  show ?thesis
    using c sub keys total three by blast
qed

lemmas example_counts_defs =
  example_db_counts_def example_rsvp_rows_def example_event_defs event_rsvps_def
  STATUS_CHOICES_def STATUS_GOING_def STATUS_MAYBE_def STATUS_NOT_GOING_def

theorem rsvp_counts_total_witness:
  "mset example_rsvp_rows = mset (event_rsvps example_db_counts 1)
   \<and> list_all (\<lambda>r. rsvp_status r \<in> set (map fst STATUS_CHOICES)) (rsvps example_db_counts)
   \<and> length (event_rsvps example_db_counts 1) = 3
   \<and> (\<exists>counts. rsvp_counts example_rsvp_rows = Inr counts
         \<and> dom counts = {''Going'', ''Maybe'', ''Not_Going''}
         \<and> counts ''Going'' = Some 1 \<and> counts ''Maybe'' = Some 0
         \<and> counts ''Not_Going'' = Some 2)"
proof -
  have m: "mset example_rsvp_rows = mset (event_rsvps example_db_counts 1)"
    by (simp add: example_counts_defs add_mset_commute)
  have valid: "list_all (\<lambda>r. rsvp_status r \<in> set (map fst STATUS_CHOICES)) (rsvps example_db_counts)"
    by (simp add: example_counts_defs)
  then have valid': "\<forall>r \<in> set (rsvps example_db_counts). rsvp_status r \<in> set (map fst STATUS_CHOICES)"
    by (simp only: list_all_iff)
  have len: "length (event_rsvps example_db_counts 1) = 3"
    by (simp add: example_counts_defs)
  from rsvp_counts_total [OF m] obtain counts where
    c1: "rsvp_counts example_rsvp_rows = Inr counts"
    and c2: "{''Going'', ''Maybe'', ''Not_Going''} \<subseteq> dom counts"
    and c3: "\<forall>k \<in> dom counts. counts k =
           Some (int (length (filter (\<lambda>r. normalized_key (rsvp_status r) = k)
                                (event_rsvps example_db_counts 1))))"
    and c4: "(\<Sum>k \<in> dom counts. the (counts k)) = int (length (event_rsvps example_db_counts 1))"
    and c5: "(\<forall>r \<in> set (rsvps example_db_counts). rsvp_status r \<in> set (map fst STATUS_CHOICES)) \<longrightarrow>
          dom counts = {''Going'', ''Maybe'', ''Not_Going''}
          \<and> the (counts ''Going'') + the (counts ''Maybe'') + the (counts ''Not_Going'')
              = int (length (event_rsvps example_db_counts 1))"
    by (elim exE conjE) (rule that)
  from c5 valid' have d: "dom counts = {''Going'', ''Maybe'', ''Not_Going''}" by (rule mp [THEN conjunct1])
  have n: "int (length (filter (\<lambda>r. normalized_key (rsvp_status r) = ''Going'')
                                (event_rsvps example_db_counts 1))) = 1"
    "int (length (filter (\<lambda>r. normalized_key (rsvp_status r) = ''Maybe'')
                                (event_rsvps example_db_counts 1))) = 0"
    "int (length (filter (\<lambda>r. normalized_key (rsvp_status r) = ''Not_Going'')
                                (event_rsvps example_db_counts 1))) = 2"
    by (simp_all add: example_counts_defs normalized_key_def)
  have k: "''Going'' \<in> dom counts" "''Maybe'' \<in> dom counts" "''Not_Going'' \<in> dom counts"
    using c2 by blast+
  have "counts ''Going'' = Some 1"
    using bspec [OF c3 k(1)] n(1) by (simp only:)
  moreover have "counts ''Maybe'' = Some 0"
    using bspec [OF c3 k(2)] n(2) by (simp only:)
  moreover have "counts ''Not_Going'' = Some 2"
    using bspec [OF c3 k(3)] n(3) by (simp only:)
  ultimately have "\<exists>counts. rsvp_counts example_rsvp_rows = Inr counts
         \<and> dom counts = {''Going'', ''Maybe'', ''Not_Going''}
         \<and> counts ''Going'' = Some 1 \<and> counts ''Maybe'' = Some 0
         \<and> counts ''Not_Going'' = Some 2"
    using c1 d by blast
  with m valid len show ?thesis by (intro conjI)
qed

text \<open>The RSVP endpoint stores only statuses of \<open>STATUS_CHOICES\<close>.\<close>

lemma rsvp_keeps_valid_statuses:
  assumes valid: "\<forall>r \<in> set (rsvps d). rsvp_status r \<in> set (map fst STATUS_CHOICES)"
    and ok: "rsvp_table_ok (rsvps d)"
    and res: "rsvp d now caller e st = Inr (d', obj, code)"
  shows "\<forall>r \<in> set (rsvps d'). rsvp_status r \<in> set (map fst STATUS_CHOICES)"
proof -
  from rsvp_Inr [OF res] obtain s where "st = Some s" "s \<in> set (map fst STATUS_CHOICES)"
    by blast
  with rsvp_effect(4) [OF ok res] have obj: "rsvp_status obj \<in> set (map fst STATUS_CHOICES)"
    by simp
  show ?thesis
  proof (cases "rsvps_of (rsvps d) e (rsvp_user obj)")
    case Nil
    from rsvp_effect(7) [OF ok res Nil] have "rsvps d' = rsvps d @ [obj]" by simp
    with valid obj show ?thesis by simp
  next
    case (Cons found rest)
    from rsvp_effect(8) [OF ok res Cons]
    have "rsvps d' = map (\<lambda>r. if r = found then obj else r) (rsvps d)" by simp
    with valid obj show ?thesis by auto
  qed
qed

section \<open>Updating an RSVP\<close>

lemma get_rsvp_Inr: "get_rsvp rows e u = Inr found \<longleftrightarrow> rsvps_of rows e u = [found]"
  by (auto simp: get_rsvp_def split: list.splits)

text \<open>
  A body that carries no \<open>event\<close> key changes nothing but the status of the target row.
\<close>

lemma update_rsvp_status_only:
  assumes ok: "rsvp_table_ok (rsvps d)"
    and body: "data_event data = None"
    and res: "update_rsvp d caller e u data = Inr (d', obj)"
  shows "\<exists>found. rsvps_of (rsvps d) e u = [found]
           \<and> obj = found\<lparr>rsvp_status :=
                    (case data_status data of None \<Rightarrow> rsvp_status found | Some s \<Rightarrow> s)\<rparr>
           \<and> rsvps d' = map (\<lambda>r. if r = found then obj else r) (rsvps d)"
proof -
  from res obtain uid where c: "caller = Some (User uid)"
    by (cases caller) (auto simp: update_rsvp_def split: request_user.splits)
  from res c obtain ev where ev: "get_event d e = Some ev"
    by (cases "get_event d e") (auto simp: update_rsvp_def)
  have pk: "pk ev = e" using get_event_pk [OF ev] by simp
  from res c ev pk obtain found where g: "get_rsvp (rsvps d) e u = Inr found"
    by (cases "get_rsvp (rsvps d) e u") (auto simp: update_rsvp_def)
  then have f: "rsvps_of (rsvps d) e u = [found]" by (simp add: get_rsvp_Inr)
  let ?s = "case data_status data of None \<Rightarrow> rsvp_status found | Some s \<Rightarrow> s"
  from res c ev pk g obtain obj' where p: "rsvp_partial_update d found data = Inr obj'"
    by (cases "rsvp_partial_update d found data") (auto simp: update_rsvp_def split: if_splits)
  have obj': "obj' = found\<lparr>rsvp_status := ?s\<rparr>"
  proof (cases "data_status data")
    case None
    with p body show ?thesis by (simp add: rsvp_partial_update_def)
  next
    case (Some v)
    with p body obtain s where "serializer_status (Some v) = Inr s" "obj' = found\<lparr>rsvp_status := s\<rparr>"
      by (cases "serializer_status (Some v)") (auto simp: rsvp_partial_update_def)
    then show ?thesis using Some by (simp add: serializer_status_Inr)
  qed
  from res c ev pk g p obtain rows where
    s: "rsvp_save (rsvps d) obj' = Inr rows" and d': "d' = d\<lparr>rsvps := rows\<rparr>" "obj = obj'"
    by (cases "rsvp_save (rsvps d) obj'") (auto simp: update_rsvp_def split: if_splits)
  have mem: "found \<in> set (rsvps d)" by (rule rsvps_of_single(1) [OF f])
  have "distinct (map rsvp_pk (rsvps d))" using ok by (simp add: rsvp_table_ok_def)
  then have "map (\<lambda>r. if rsvp_pk r = rsvp_pk found then found\<lparr>rsvp_status := ?s\<rparr> else r) (rsvps d)
      = map (\<lambda>r. if r = found then found\<lparr>rsvp_status := ?s\<rparr> else r) (rsvps d)"
    using rsvp_pk_eq_iff [OF _ mem] by (intro map_cong) simp_all
  with s rsvp_save_found [OF f, of ?s] obj'
  have "rows = map (\<lambda>r. if r = found then found\<lparr>rsvp_status := ?s\<rparr> else r) (rsvps d)"
    by simp
  with f obj' d' show ?thesis by simp
qed

lemmas update_rsvp_eval =
  update_rsvp_def get_event_def get_rsvp_def rsvps_of_def rsvp_partial_update_def
  serializer_status_def validate_status_def STATUS_CHOICES_def STATUS_GOING_def
  STATUS_MAYBE_def STATUS_NOT_GOING_def rsvp_save_def

text \<open>
  C7. The update is not confined to the status: \<open>event\<close> is a writable field of the
  serializer, and a partial update assigns every field the body carries. User 3, who has
  answered ``Going'' to event 1, sends \<open>PATCH /api/events/1/rsvp/3/\<close> with the body
  \<open>{"status": "Maybe", "event": 2}\<close>: the request succeeds and the stored row now belongs
  to event 2. Its primary key, user and creation time are unchanged.
\<close>

theorem update_rsvp_moves_row:
  "rsvps example_db_rsvp = [example_rsvp]
   \<and> rsvp_event example_rsvp = 1
   \<and> update_rsvp example_db_rsvp (Some (User 3)) 1 3
         \<lparr>data_event = Some 2, data_status = Some ''Maybe''\<rparr>
     = Inr (example_db_rsvp
              \<lparr>rsvps := [example_rsvp\<lparr>rsvp_event := 2, rsvp_status := ''Maybe''\<rparr>]\<rparr>,
            example_rsvp\<lparr>rsvp_event := 2, rsvp_status := ''Maybe''\<rparr>)
   \<and> update_rsvp example_db_rsvp (Some (User 3)) 1 3
         \<lparr>data_event = None, data_status = Some ''Maybe''\<rparr>
     = Inr (example_db_rsvp\<lparr>rsvps := [example_rsvp\<lparr>rsvp_status := ''Maybe''\<rparr>]\<rparr>,
            example_rsvp\<lparr>rsvp_status := ''Maybe''\<rparr>)"
  by (simp add: update_rsvp_eval example_event_defs example_rsvp_def example_db_rsvp_def)

section \<open>The event listing\<close>

lemma set_join_invited:
  "set (join_invited e) =
     (if invited_users e = [] then {(e, None)} else (\<lambda>uid. (e, Some uid)) ` set (invited_users e))"
  by (cases "invited_users e") (simp_all add: join_invited_def)

lemma set_q_filter:
  "set (q_filter uid evs) =
     {e \<in> set evs. is_public e \<or> uid \<in> set (invited_users e) \<or> organizer e = uid}"
proof -
  have "e' \<in> set (q_filter uid evs) \<longleftrightarrow>
        e' \<in> set evs \<and> (is_public e' \<or> uid \<in> set (invited_users e') \<or> organizer e' = uid)" for e'
  proof
    assume "e' \<in> set (q_filter uid evs)"
    then obtain e invited where ei: "e \<in> set evs" "(e', invited) \<in> set (join_invited e)"
      "is_public e' \<or> invited = Some uid \<or> organizer e' = uid"
      by (auto simp: q_filter_def)
    from ei(2) have "e' = e" "invited = Some uid \<longrightarrow> uid \<in> set (invited_users e)"
      by (auto simp: set_join_invited split: if_splits)
    with ei show "e' \<in> set evs \<and> (is_public e' \<or> uid \<in> set (invited_users e') \<or> organizer e' = uid)"
      by auto
  next
    assume a: "e' \<in> set evs \<and> (is_public e' \<or> uid \<in> set (invited_users e') \<or> organizer e' = uid)"
    show "e' \<in> set (q_filter uid evs)"
    proof (cases "uid \<in> set (invited_users e')")
      case True
      then have "(e', Some uid) \<in> set (join_invited e')"
        by (auto simp: set_join_invited)
      with a show ?thesis
        by (force simp: q_filter_def)
    next
      case False
      obtain x where x: "(e', x) \<in> set (join_invited e')"
        by (cases "invited_users e'") (auto simp: set_join_invited)
      with a False show ?thesis
        by (force simp: q_filter_def)
    qed
  qed
  then show ?thesis by blast
qed

text \<open>The specification's rule for who sees an event in a listing.\<close>

lemma set_events_list_rows:
  "set (events_list_rows d user) =
     {e \<in> set (events d).
        is_public e \<or> (\<exists>uid. user = User uid \<and> (uid \<in> set (invited_users e) \<or> organizer e = uid))}"
  by (cases user) (auto simp: events_list_rows_def set_q_filter)

lemma distinct_pk_events_list_rows:
  assumes "distinct (map pk (events d))"
  shows "distinct (map pk (events_list_rows d user))"
proof (cases user)
  case AnonymousUser
  then show ?thesis using assms by (simp add: events_list_rows_def distinct_map_filter)
next
  case (User uid)
  have "inj_on pk (set (events d))" using assms by (simp add: distinct_map)
  moreover have "set (remdups (q_filter uid (events d))) \<subseteq> set (events d)"
    by (auto simp: set_q_filter)
  ultimately have "inj_on pk (set (remdups (q_filter uid (events d))))"
    by (rule inj_on_subset)
  then show ?thesis using User by (simp add: events_list_rows_def distinct_map)
qed

lemma order_by_exists: "\<exists>xs. order_by_created_at_desc rows xs"
proof -
  let ?xs = "rev (sort_key created_at rows)"
  have "sorted (map created_at (sort_key created_at rows))" by simp
  then have "sorted_wrt (\<lambda>a b. created_at a \<le> created_at b) (sort_key created_at rows)"
    by (simp add: sorted_wrt_map)
  then have "sorted_wrt (\<lambda>a b. created_at a \<ge> created_at b) ?xs"
    by (simp add: sorted_wrt_rev)
  then have "order_by_created_at_desc rows ?xs"
    by (simp add: order_by_created_at_desc_def)
  then show ?thesis ..
qed

lemma order_by_props:
  assumes "order_by_created_at_desc rows xs"
  shows "set xs = set rows" "sorted_wrt (\<lambda>a b. created_at a \<ge> created_at b) xs"
    "distinct (map pk rows) \<Longrightarrow> distinct (map pk xs)"
proof -
  from assms have m: "mset xs = mset rows" by (simp add: order_by_created_at_desc_def)
  then show "set xs = set rows" by (metis set_mset_mset)
  from assms show "sorted_wrt (\<lambda>a b. created_at a \<ge> created_at b) xs"
    by (simp add: order_by_created_at_desc_def)
  from m have "mset (map pk xs) = mset (map pk rows)" by simp
  then show "distinct (map pk xs)" if "distinct (map pk rows)"
    using that by (metis mset_eq_imp_distinct_iff)
qed

lemma get_queryset_list:
  assumes "action = Some ''list'' \<or> action = None"
  shows "get_queryset d (Some user) action xs = events_list_view d user xs"
    and "get_queryset d None action xs = events_list_view d AnonymousUser xs"
  using assms
  by (cases user; auto simp: get_queryset_def get_queryset_rows_def events_list_view_def
        events_list_rows_def)+

text \<open>
  C5 (amended). Every answer to the listing query, from the web page or from the API's
  list action, holds exactly the events the viewer may see: the public events for an
  anonymous viewer; for an authenticated viewer the public events, the events that invite
  the viewer and the events the viewer organizes. Each such event appears once, the
  answer is in descending order of \<open>created_at\<close>, and there always is such an answer. The
  order among events of equal \<open>created_at\<close> is not fixed by the query.
\<close>

theorem visible_events_listing:
  "(events_list_view d user xs \<longrightarrow>
      set xs = {e \<in> set (events d). can_view_spec user e}
      \<and> (user = AnonymousUser \<longrightarrow> set xs = {e \<in> set (events d). is_public e})
      \<and> (\<forall>uid. user = User uid \<longrightarrow>
           set xs = {e \<in> set (events d). is_public e}
                    \<union> {e \<in> set (events d). uid \<in> set (invited_users e)}
                    \<union> {e \<in> set (events d). organizer e = uid})
      \<and> sorted_wrt (\<lambda>a b. created_at a \<ge> created_at b) xs
      \<and> (distinct (map pk (events d)) \<longrightarrow> distinct (map pk xs)))
   \<and> ((action = Some ''list'' \<or> action = None) \<and> get_queryset d (Some user) action xs \<longrightarrow>
        events_list_view d user xs)
   \<and> ((action = Some ''list'' \<or> action = None) \<and> get_queryset d None action xs \<longrightarrow>
        events_list_view d AnonymousUser xs)
   \<and> (\<exists>ys. events_list_view d user ys)"
proof (intro conjI impI)
  assume v: "events_list_view d user xs"
  then have o: "order_by_created_at_desc (events_list_rows d user) xs"
    by (simp add: events_list_view_def)
  have s: "set xs = {e \<in> set (events d).
        is_public e \<or> (\<exists>uid. user = User uid \<and> (uid \<in> set (invited_users e) \<or> organizer e = uid))}"
    using order_by_props(1) [OF o] by (simp add: set_events_list_rows)
  show "set xs = {e \<in> set (events d). can_view_spec user e}"
    unfolding s by (cases user) (auto simp: can_view_spec_def)
  show "user = AnonymousUser \<Longrightarrow> set xs = {e \<in> set (events d). is_public e}"
    unfolding s by auto
  show "\<forall>uid. user = User uid \<longrightarrow>
           set xs = {e \<in> set (events d). is_public e}
                    \<union> {e \<in> set (events d). uid \<in> set (invited_users e)}
                    \<union> {e \<in> set (events d). organizer e = uid}"
    unfolding s by auto
  show "sorted_wrt (\<lambda>a b. created_at a \<ge> created_at b) xs"
    by (rule order_by_props(2) [OF o])
  show "distinct (map pk xs)" if "distinct (map pk (events d))"
    using order_by_props(3) [OF o] distinct_pk_events_list_rows [OF that] by blast
next
  assume "(action = Some ''list'' \<or> action = None) \<and> get_queryset d (Some user) action xs"
  then show "events_list_view d user xs" using get_queryset_list(1) by blast
next
  assume "(action = Some ''list'' \<or> action = None) \<and> get_queryset d None action xs"
  then show "events_list_view d AnonymousUser xs" using get_queryset_list(2) by blast
next
  show "\<exists>ys. events_list_view d user ys"
    unfolding events_list_view_def by (rule order_by_exists)
qed

lemmas listing_eval =
  events_list_view_def get_queryset_def get_queryset_rows_def events_list_rows_def
  order_by_created_at_desc_def q_filter_def join_invited_def example_event_defs

theorem visible_events_listing_witness:
  "events_list_view example_db AnonymousUser [example_public_event]
   \<and> set [example_public_event] = {e \<in> set (events example_db). is_public e}
   \<and> example_private_event \<notin> set [example_public_event]
   \<and> distinct (map pk (events example_db))
   \<and> get_queryset example_db None (Some ''list'') [example_public_event]
   \<and> events_list_view example_db (User 3) [example_public_event, example_private_event]
   \<and> set [example_public_event, example_private_event] =
       {e \<in> set (events example_db). is_public e}
       \<union> {e \<in> set (events example_db). 3 \<in> set (invited_users e)}
       \<union> {e \<in> set (events example_db). organizer e = 3}"
proof -
  have a: "events_list_view example_db AnonymousUser [example_public_event]"
    by (simp add: listing_eval)
  have b: "events_list_view example_db (User 3) [example_public_event, example_private_event]"
    by (simp add: listing_eval)
  have c: "get_queryset example_db None (Some ''list'') [example_public_event]"
    by (simp add: listing_eval)
  have d: "distinct (map pk (events example_db))"
    "example_private_event \<notin> set [example_public_event]"
    by (simp_all add: example_event_defs)
  from visible_events_listing [where d = example_db and user = AnonymousUser
      and xs = "[example_public_event]"] a
  have e: "set [example_public_event] = {e \<in> set (events example_db). is_public e}"
    by blast
  from visible_events_listing [where d = example_db and user = "User 3"
      and xs = "[example_public_event, example_private_event]"] b
  have f: "set [example_public_event, example_private_event] =
       {e \<in> set (events example_db). is_public e}
       \<union> {e \<in> set (events example_db). 3 \<in> set (invited_users e)}
       \<union> {e \<in> set (events example_db). organizer e = 3}"
    by blast
  from a b c d e f show ?thesis by (intro conjI)
qed

theorem listing_ties_counterexample:
  "created_at example_private_event = created_at example_public_event
   \<and> pk example_private_event < pk example_public_event
   \<and> events example_db = [example_private_event, example_public_event]
   \<and> events_list_view example_db (User 1) [example_private_event, example_public_event]
   \<and> events_list_view example_db (User 1) [example_public_event, example_private_event]
   \<and> get_queryset example_db (Some (User 1)) (Some ''list'')
        [example_private_event, example_public_event]
   \<and> get_queryset example_db (Some (User 1)) (Some ''list'')
        [example_public_event, example_private_event]"
  by (simp add: listing_eval)

section \<open>The time window at write time\<close>

lemma event_fields_times:
  assumes "event_fields d partial data = Some cleaned"
  shows "data_start_time cleaned = data_start_time data"
    "data_end_time cleaned = data_end_time data"
    "\<not> partial \<Longrightarrow> data_start_time data \<noteq> None \<and> data_end_time data \<noteq> None"
  using assms
  by (auto simp: event_fields_def split: if_splits option.splits prod.splits)

text \<open>The times a write would store: those of the data, else those of the instance.\<close>

lemma validate_Inr:
  "validate instance data = Inr v \<longleftrightarrow>
     v = data \<and>
     (\<forall>s t. (case data_start_time data of
                Some x \<Rightarrow> Some x
              | None \<Rightarrow> map_option start_time instance) = Some s
          \<and> (case data_end_time data of
                Some x \<Rightarrow> Some x
              | None \<Rightarrow> map_option end_time instance) = Some t
          \<longrightarrow> s < t)"
  by (cases "data_start_time data"; cases "data_end_time data"; cases "instance")
     (auto simp: validate_def)

lemma validate_error: "validate instance data = Inl err \<Longrightarrow> err = ValidationError"
  by (auto simp: validate_def Let_def split: option.splits if_splits)

lemma create_event_User:
  "create_event d now (Some (User uid)) data =
     (case event_fields d False data of
        None \<Rightarrow> Inl ValidationError
      | Some cleaned \<Rightarrow>
          (case validate None cleaned of
             Inl err \<Rightarrow> Inl err
           | Inr v \<Rightarrow>
               (case (data_title v, data_location v, data_start_time v, data_end_time v) of
                  (Some t, Some l, Some s, Some e) \<Rightarrow>
                    Inr (d\<lparr>events := events d @
                           [\<lparr>pk = next_pk (map pk (events d)), title = t,
                             description = (case data_description v of None \<Rightarrow> [] | Some ds \<Rightarrow> ds),
                             organizer = uid, location = l, start_time = s, end_time = e,
                             is_public = (case data_is_public v of None \<Rightarrow> True | Some b \<Rightarrow> b),
                             invited_users =
                               (case data_invited_users v of None \<Rightarrow> [] | Some invs \<Rightarrow> remdups invs),
                             created_at = now, updated_at = now\<rparr>]\<rparr>,
                         \<lparr>pk = next_pk (map pk (events d)), title = t,
                           description = (case data_description v of None \<Rightarrow> [] | Some ds \<Rightarrow> ds),
                           organizer = uid, location = l, start_time = s, end_time = e,
                           is_public = (case data_is_public v of None \<Rightarrow> True | Some b \<Rightarrow> b),
                           invited_users =
                             (case data_invited_users v of None \<Rightarrow> [] | Some invs \<Rightarrow> remdups invs),
                           created_at = now, updated_at = now\<rparr>)
                | _ \<Rightarrow> Inl IntegrityError)))"
  by (simp add: create_event_def Let_def split: option.splits sum.splits prod.splits)

lemma create_event_rejects:
  assumes "data_start_time data = Some s" "data_end_time data = Some t" "s \<ge> t"
  shows "create_event d now (Some (User uid)) data = Inl ValidationError"
proof (cases "event_fields d False data")
  case None
  then show ?thesis by (simp add: create_event_User)
next
  case (Some cleaned)
  have "validate None cleaned = Inl ValidationError"
    using event_fields_times(1,2) [OF Some] assms by (simp add: validate_def)
  with Some show ?thesis by (simp add: create_event_User)
qed

lemma create_event_stores:
  assumes res: "create_event d now caller data = Inr (d', ev)"
  shows "start_time ev < end_time ev \<and> events d' = events d @ [ev]"
proof -
  from res obtain uid where c: "caller = Some (User uid)"
    by (cases caller) (auto simp: create_event_def split: request_user.splits)
  from res c obtain cleaned where f: "event_fields d False data = Some cleaned"
    by (cases "event_fields d False data") (auto simp: create_event_User)
  from res c f obtain v where v: "validate None cleaned = Inr v"
    by (cases "validate None cleaned") (auto simp: create_event_User)
  from res c f v obtain s e where
    se: "data_start_time v = Some s" "data_end_time v = Some e"
      "start_time ev = s" "end_time ev = e" "events d' = events d @ [ev]"
    by (auto simp: create_event_User split: option.splits)
  from v have "v = cleaned" "\<forall>s t. data_start_time cleaned = Some s \<and> data_end_time cleaned = Some t \<longrightarrow> s < t"
    unfolding validate_Inr by (auto split: option.splits)
  with se show ?thesis by auto
qed

lemma update_event_organizer:
  assumes "get_event d event_id = Some ev" "organizer ev = uid"
  shows "update_event d now (Some (User uid)) event_id partial data =
     (case event_fields d partial data of
        None \<Rightarrow> Inl ValidationError
      | Some cleaned \<Rightarrow>
          (case validate (Some ev) cleaned of
             Inl err \<Rightarrow> Inl err
           | Inr v \<Rightarrow>
               Inr (d\<lparr>events := map (\<lambda>e. if pk e = pk (update ev now v) then update ev now v else e)
                                   (events d)\<rparr>,
                    update ev now v)))"
  using assms
  by (auto simp: update_event_def is_organizer_or_read_only_def SAFE_METHODS_def Let_def
        split: option.splits sum.splits)

lemma update_event_rejects:
  assumes ev: "get_event d event_id = Some ev" "organizer ev = uid"
    and s: "(case data_start_time data of Some x \<Rightarrow> x | None \<Rightarrow> start_time ev) = s"
    and t: "(case data_end_time data of Some x \<Rightarrow> x | None \<Rightarrow> end_time ev) = t"
    and "s \<ge> t"
  shows "update_event d now (Some (User uid)) event_id partial data = Inl ValidationError"
proof (cases "event_fields d partial data")
  case None
  then show ?thesis by (simp add: update_event_organizer [OF ev])
next
  case (Some cleaned)
  have "validate (Some ev) cleaned = Inl ValidationError"
    using event_fields_times(1,2) [OF Some] s t \<open>s \<ge> t\<close>
    by (auto simp: validate_def split: option.splits)
  with Some show ?thesis by (simp add: update_event_organizer [OF ev])
qed

lemma update_times:
  "start_time (update ev now v) = (case data_start_time v of None \<Rightarrow> start_time ev | Some s \<Rightarrow> s)"
  "end_time (update ev now v) = (case data_end_time v of None \<Rightarrow> end_time ev | Some e \<Rightarrow> e)"
  "pk (update ev now v) = pk ev"
  by (simp_all add: update_def)

lemma update_event_stores:
  assumes res: "update_event d now caller event_id partial data = Inr (d', ev')"
  shows "start_time ev' < end_time ev'
     \<and> events d' = map (\<lambda>e. if pk e = pk ev' then ev' else e) (events d)"
proof -
  from res obtain uid where c: "caller = Some (User uid)"
    by (cases caller) (auto simp: update_event_def split: request_user.splits)
  from res c obtain ev where ev: "get_event d event_id = Some ev"
    by (cases "get_event d event_id") (auto simp: update_event_def)
  from res c ev have org: "organizer ev = uid"
    by (auto simp: update_event_def is_organizer_or_read_only_def SAFE_METHODS_def
          split: if_splits)
  note unf = update_event_organizer [OF ev org]
  from res c obtain cleaned where f: "event_fields d partial data = Some cleaned"
    by (cases "event_fields d partial data") (auto simp: unf)
  from res c f obtain v where v: "validate (Some ev) cleaned = Inr v"
    by (cases "validate (Some ev) cleaned") (auto simp: unf)
  from res c f v have r: "ev' = update ev now v"
    "events d' = map (\<lambda>e. if pk e = pk ev' then ev' else e) (events d)"
    by (auto simp: unf)
  from v [unfolded validate_Inr] have vc: "v = cleaned" and lt: "\<forall>s t. (case data_start_time cleaned of
                Some x \<Rightarrow> Some x
              | None \<Rightarrow> Some (start_time ev)) = Some s
          \<and> (case data_end_time cleaned of
                Some x \<Rightarrow> Some x
              | None \<Rightarrow> Some (end_time ev)) = Some t
          \<longrightarrow> s < t"
    by (auto split: option.splits)
  have "start_time ev' < end_time ev'"
    using lt unfolding r(1) update_times vc by (auto split: option.splits)
  with r(2) show ?thesis by simp
qed

lemma parse_datetime_input_empty: "parse_datetime_input p m [] = Inr None"
  by (simp add: parse_datetime_input_def)

lemma create_event_view_rejects:
  assumes "parse_datetime_input p m (strip (post_get (post_start_time form))) = Inr (Some s)"
    "parse_datetime_input p m (strip (post_get (post_end_time form))) = Inr (Some t)" "s \<ge> t"
  shows "create_event_view p m d now (User uid) form = Inl ValidationError"
  using assms by (simp add: create_event_view_def Let_def)

lemma create_event_view_stores:
  assumes res: "create_event_view p m d now caller form = Inr (d', ev, warnings)"
  shows "start_time ev < end_time ev \<and> events d' = events d @ [ev]"
proof -
  from res obtain uid where c: "caller = User uid"
    by (cases caller) (auto simp: create_event_view_def)
  let ?s = "parse_datetime_input p m (strip (post_get (post_start_time form)))"
  let ?t = "parse_datetime_input p m (strip (post_get (post_end_time form)))"
  from res c obtain so where so: "?s = Inr so"
    by (cases ?s) (auto simp: create_event_view_def Let_def split: if_splits)
  from res c so obtain to where to: "?t = Inr to"
    by (cases ?t) (auto simp: create_event_view_def Let_def split: if_splits)
  from res c so to obtain s where s: "so = Some s"
    by (cases so) (auto simp: create_event_view_def Let_def split: if_splits)
  from res c so to s obtain t where t: "to = Some t"
    by (cases to) (auto simp: create_event_view_def Let_def split: if_splits)
  from res c so to s t show ?thesis
    by (auto simp: create_event_view_def Let_def split: if_splits prod.splits)
qed

lemma start_before_end_append:
  "start_before_end d \<Longrightarrow> start_time ev < end_time ev \<Longrightarrow> events d' = events d @ [ev] \<Longrightarrow>
   start_before_end d' \<and> ev \<in> set (events d')"
  by (auto simp: start_before_end_def)

lemma start_before_end_replace:
  "start_before_end d \<Longrightarrow> start_time ev < end_time ev \<Longrightarrow>
   events d' = map (\<lambda>e. if pk e = pk ev then ev else e) (events d) \<Longrightarrow>
   start_before_end d'"
  by (auto simp: start_before_end_def)

text \<open>
  C9. Every write path checks the time window. A create through the API, an update (full
  or partial) by the organizer, and a create through the web form are each rejected with
  \<open>ValidationError\<close>, storing nothing, when the start time the write would store is not
  before the end time it would store (for a partial update a time the body lacks is the
  stored one). Every write that succeeds stores an event that starts before it ends, so
  tables in which all events do so stay that way.
\<close>

theorem start_before_end_enforced:
  "(data_start_time data = Some s \<and> data_end_time data = Some t \<and> s \<ge> t \<longrightarrow>
      create_event d now (Some (User uid)) data = Inl ValidationError)
   \<and> (get_event d event_id = Some ev \<and> organizer ev = uid
        \<and> (case data_start_time data of Some x \<Rightarrow> x | None \<Rightarrow> start_time ev)
            \<ge> (case data_end_time data of Some x \<Rightarrow> x | None \<Rightarrow> end_time ev) \<longrightarrow>
      update_event d now (Some (User uid)) event_id partial data = Inl ValidationError)
   \<and> (parse_datetime_input p m (strip (post_get (post_start_time form))) = Inr (Some s)
        \<and> parse_datetime_input p m (strip (post_get (post_end_time form))) = Inr (Some t)
        \<and> s \<ge> t \<longrightarrow>
      create_event_view p m d now (User uid) form = Inl ValidationError)
   \<and> (start_before_end d \<longrightarrow>
        (create_event d now caller data = Inr (d', ev') \<longrightarrow>
           start_before_end d' \<and> start_time ev' < end_time ev' \<and> ev' \<in> set (events d'))
        \<and> (update_event d now caller event_id partial data = Inr (d', ev') \<longrightarrow>
           start_before_end d' \<and> start_time ev' < end_time ev')
        \<and> (create_event_view p m d now web_caller form = Inr (d', ev', warnings) \<longrightarrow>
           start_before_end d' \<and> start_time ev' < end_time ev' \<and> ev' \<in> set (events d')))"
proof (intro conjI impI)
  assume "data_start_time data = Some s \<and> data_end_time data = Some t \<and> s \<ge> t"
  then show "create_event d now (Some (User uid)) data = Inl ValidationError"
    using create_event_rejects by blast
next
  assume a: "get_event d event_id = Some ev \<and> organizer ev = uid
        \<and> (case data_start_time data of Some x \<Rightarrow> x | None \<Rightarrow> start_time ev)
            \<ge> (case data_end_time data of Some x \<Rightarrow> x | None \<Rightarrow> end_time ev)"
  then have a1: "get_event d event_id = Some ev" and a2: "organizer ev = uid"
    and a3: "(case data_start_time data of Some x \<Rightarrow> x | None \<Rightarrow> start_time ev)
            \<ge> (case data_end_time data of Some x \<Rightarrow> x | None \<Rightarrow> end_time ev)"
    by blast+
  show "update_event d now (Some (User uid)) event_id partial data = Inl ValidationError"
    by (rule update_event_rejects [OF a1 a2 refl refl a3])
next
  assume "parse_datetime_input p m (strip (post_get (post_start_time form))) = Inr (Some s)
        \<and> parse_datetime_input p m (strip (post_get (post_end_time form))) = Inr (Some t)
        \<and> s \<ge> t"
  then show "create_event_view p m d now (User uid) form = Inl ValidationError"
    using create_event_view_rejects by blast
next
  assume inv: "start_before_end d"
  {
    assume "create_event d now caller data = Inr (d', ev')"
    from create_event_stores [OF this] inv
    have "start_before_end d' \<and> ev' \<in> set (events d')" "start_time ev' < end_time ev'"
      using start_before_end_append by blast+
  }
  then show "create_event d now caller data = Inr (d', ev') \<Longrightarrow> start_before_end d'"
    and "create_event d now caller data = Inr (d', ev') \<Longrightarrow> start_time ev' < end_time ev'"
    and "create_event d now caller data = Inr (d', ev') \<Longrightarrow> ev' \<in> set (events d')"
    by blast+
  {
    assume "update_event d now caller event_id partial data = Inr (d', ev')"
    from update_event_stores [OF this] inv
    have "start_before_end d'" "start_time ev' < end_time ev'"
      using start_before_end_replace by blast+
  }
  then show "update_event d now caller event_id partial data = Inr (d', ev') \<Longrightarrow> start_before_end d'"
    and "update_event d now caller event_id partial data = Inr (d', ev') \<Longrightarrow>
         start_time ev' < end_time ev'"
    by blast+
  {
    assume "create_event_view p m d now web_caller form = Inr (d', ev', warnings)"
    from create_event_view_stores [OF this] inv
    have "start_before_end d' \<and> ev' \<in> set (events d')" "start_time ev' < end_time ev'"
      using start_before_end_append by blast+
  }
  then show "create_event_view p m d now web_caller form = Inr (d', ev', warnings) \<Longrightarrow>
         start_before_end d'"
    and "create_event_view p m d now web_caller form = Inr (d', ev', warnings) \<Longrightarrow>
         start_time ev' < end_time ev'"
    and "create_event_view p m d now web_caller form = Inr (d', ev', warnings) \<Longrightarrow>
         ev' \<in> set (events d')"
    by blast+
qed

lemmas event_write_eval =
  create_event_def update_event_def create_event_view_def event_fields_def opt_field_def
  char_field_def validate_def update_def get_event_def is_organizer_or_read_only_def
  SAFE_METHODS_def parse_datetime_input_def post_get_def strip_def lstrip_def rstrip_def
  py_isspace_def unsigned_value_def is_digit_def digit_value_def next_pk_def py_text_def Let_def
  example_parse_datetime_def example_event_data_def example_event_form_def example_event_defs

theorem start_before_end_enforced_witness:
  "data_start_time example_event_data = Some 1000
   \<and> data_end_time example_event_data = Some 900
   \<and> create_event example_db 50 (Some (User 1)) example_event_data = Inl ValidationError
   \<and> get_event example_db 1 = Some example_private_event
   \<and> organizer example_private_event = 1
   \<and> start_time example_private_event = 100
   \<and> update_event example_db 50 (Some (User 1)) 1 True
        (example_event_data\<lparr>data_start_time := None, data_end_time := Some 50\<rparr>)
       = Inl ValidationError
   \<and> parse_datetime_input example_parse_datetime id (py_text ''1000'') = Inr (Some 1000)
   \<and> parse_datetime_input example_parse_datetime id (py_text ''900'') = Inr (Some 900)
   \<and> create_event_view example_parse_datetime id example_db 50 (User 1) example_event_form
       = Inl ValidationError
   \<and> start_before_end example_db
   \<and> (\<exists>d' ev'. create_event example_db 50 (Some (User 1))
                    (example_event_data\<lparr>data_end_time := Some 2000\<rparr>) = Inr (d', ev')
          \<and> start_before_end d' \<and> start_time ev' < end_time ev' \<and> ev' \<in> set (events d'))"
proof -
  have t: "data_start_time example_event_data = Some 1000"
    "data_end_time example_event_data = Some 900"
    by (simp_all add: example_event_data_def)
  have ev: "get_event example_db 1 = Some example_private_event"
    "organizer example_private_event = 1" "start_time example_private_event = 100"
    by (simp_all add: example_event_defs get_event_def)
  have p: "parse_datetime_input example_parse_datetime id (py_text ''1000'') = Inr (Some 1000)"
    "parse_datetime_input example_parse_datetime id (py_text ''900'') = Inr (Some 900)"
    by (simp_all add: event_write_eval)
  have f: "strip (post_get (post_start_time example_event_form)) = py_text ''1000''"
    "strip (post_get (post_end_time example_event_form)) = py_text ''900''"
    by (simp_all add: event_write_eval)
  have inv: "start_before_end example_db"
    by (simp add: start_before_end_def example_event_defs)
  obtain d' ev' where ok: "create_event example_db 50 (Some (User 1))
                    (example_event_data\<lparr>data_end_time := Some 2000\<rparr>) = Inr (d', ev')"
    by (simp add: event_write_eval)
  note th = start_before_end_enforced [where d = example_db and now = 50 and uid = 1
      and p = example_parse_datetime and m = id and form = example_event_form
      and s = 1000 and t = 900 and event_id = 1 and ev = example_private_event
      and partial = True]
  have a: "create_event example_db 50 (Some (User 1)) example_event_data = Inl ValidationError"
    using th [where data = example_event_data] t by simp
  have b: "update_event example_db 50 (Some (User 1)) 1 True
        (example_event_data\<lparr>data_start_time := None, data_end_time := Some 50\<rparr>)
       = Inl ValidationError"
    using th [where data = "example_event_data\<lparr>data_start_time := None, data_end_time := Some 50\<rparr>"]
      ev by simp
  have c: "create_event_view example_parse_datetime id example_db 50 (User 1) example_event_form
       = Inl ValidationError"
    using th [where data = example_event_data] p f by simp
  have e: "start_before_end d' \<and> start_time ev' < end_time ev' \<and> ev' \<in> set (events d')"
    using th [where data = "example_event_data\<lparr>data_end_time := Some 2000\<rparr>"
        and caller = "Some (User 1)" and d' = d' and ev' = ev'] inv ok by blast
  with ok have g: "\<exists>d' ev'. create_event example_db 50 (Some (User 1))
                    (example_event_data\<lparr>data_end_time := Some 2000\<rparr>) = Inr (d', ev')
          \<and> start_before_end d' \<and> start_time ev' < end_time ev' \<and> ev' \<in> set (events d')"
    by blast
  from t ev a b p c inv g show ?thesis by (intro conjI)
qed

end
